theory Spec2Isabelle
  imports Complex_Main "HOL-Library.Finite_Map" "HOL-Library.Product_Lexorder"
begin

section \<open>Conventions of the embedding\<close>

text \<open>
  The C++ sources are \<^verbatim>\<open>StatNode.h\<close>, \<^verbatim>\<open>HistoryNode.h\<close>, \<^verbatim>\<open>Modifier.h\<close> and
  \<^verbatim>\<open>GraphManagerV2.h\<close>.

  \<^item> A \<^verbatim>\<open>double\<close> is a \<open>real\<close>: rounding, infinities and NaN are not modelled, except
    for the division by 0 in \<^verbatim>\<open>GetDecayingValue\<close>, whose result is an \<open>option\<close>.
  \<^item> A \<^verbatim>\<open>shared_ptr\<close> or \<^verbatim>\<open>weak_ptr\<close> to a node is an address (\<open>addr\<close>); the nodes
    live in a heap, a finite map from addresses to node objects. \<^verbatim>\<open>lock()\<close> on a weak
    pointer is a heap lookup, and fails on an address that holds no object.
  \<^item> A \<^verbatim>\<open>std::function\<close> member is an \<open>option\<close>: \<open>None\<close> is the empty function
    object (\<^verbatim>\<open>nullptr\<close>). A predicate \<^verbatim>\<open>std::function<bool()>\<close> is a closure over mutable
    state outside the graph; that state is the parameter \<open>'e\<close>, and the predicate is a
    function \<open>'e \<Rightarrow> bool\<close>.
  \<^item> \<^verbatim>\<open>Clock::now()\<close> is the parameter \<open>now\<close>, in seconds; a \<^verbatim>\<open>TimePoint\<close> is a \<open>real\<close>.
  \<^item> Mutexes are not modelled: every operation runs alone.
\<close>

section \<open>StatNode.h\<close>

type_synonym addr = nat

datatype NodeType = Base | Derived | History

record 'e ConditionalParent =
  cp_node :: addr
  cp_condition :: "('e \<Rightarrow> bool) option"
  conditionDesc :: string
  lastActive :: bool

record EdgeState =
  fromId :: string
  toId :: string
  isActive :: bool
  isConditional :: bool
  condition :: string

record TimestampedEvent =
  ev_value :: real
  timestamp :: real
  eventType :: string

text \<open>
  The members of \<^verbatim>\<open>HistoryStatNode\<close> that \<^verbatim>\<open>StatNode\<close> does not have. A node object that is
  a \<^verbatim>\<open>HistoryStatNode\<close> carries them in \<open>m_history\<close>; a plain \<^verbatim>\<open>StatNode\<close> has \<open>None\<close> there.
\<close>

record HistoryPart =
  m_events :: "TimestampedEvent list"
  m_defaultWindow :: real
  m_lastCleanup :: real

text \<open>
  The calculation functions of the model: a function of the parent values (\<open>Custom\<close>), and
  the lambda of the \<^verbatim>\<open>HistoryStatNode\<close> constructor, which captures \<^verbatim>\<open>this\<close> and returns
  \<^verbatim>\<open>SumRecent(m_defaultWindow)\<close> (\<open>SumRecentDefault\<close>). The lambda of
  \<^verbatim>\<open>GraphManager::CreateModifiedStat\<close>, which reads and writes the aggregators of the
  manager, is not a function of the parent values; it and \<^verbatim>\<open>CreateModifiedStat\<close> are left out.
\<close>

datatype CalculationFunc = Custom "real list \<Rightarrow> real" | SumRecentDefault

record 'e StatNode =
  m_id :: string
  m_label :: string
  m_baseValue :: real
  m_cachedValue :: real
  m_isDirty :: bool
  m_type :: NodeType
  m_parents :: "addr list"
  m_conditionalParents :: "'e ConditionalParent list"
  m_children :: "addr list"
  m_calculateFunc :: "CalculationFunc option"
  m_nodeCategory :: string
  m_isHistoryNode :: bool
  m_history :: "HistoryPart option"

type_synonym 'e heap = "(addr, 'e StatNode) fmap"

text \<open>The constructor \<^verbatim>\<open>StatNode(id, label, baseValue, type)\<close>.\<close>

definition new_StatNode :: "string \<Rightarrow> string \<Rightarrow> real \<Rightarrow> NodeType \<Rightarrow> 'e StatNode" where
  "new_StatNode i l baseValue t =
     \<lparr> m_id = i, m_label = l, m_baseValue = baseValue, m_cachedValue = baseValue,
       m_isDirty = (t = Derived), m_type = t, m_parents = [], m_conditionalParents = [],
       m_children = [], m_calculateFunc = None, m_nodeCategory = ''unknown'',
       m_isHistoryNode = False, m_history = None \<rparr>"

text \<open>An assignment to members of the object at an address.\<close>

definition modify :: "addr \<Rightarrow> ('e StatNode \<Rightarrow> 'e StatNode) \<Rightarrow> 'e heap \<Rightarrow> 'e heap" where
  "modify a f h = (case fmlookup h a of None \<Rightarrow> h | Some n \<Rightarrow> fmupd a (f n) h)"

definition SetCategory :: "addr \<Rightarrow> string \<Rightarrow> 'e heap \<Rightarrow> 'e heap" where
  "SetCategory a cat h = modify a (\<lambda>n. n\<lparr>m_nodeCategory := cat\<rparr>) h"

definition SetIsHistoryNode :: "addr \<Rightarrow> bool \<Rightarrow> 'e heap \<Rightarrow> 'e heap" where
  "SetIsHistoryNode a isHistory h =
     modify a (\<lambda>n. if isHistory then n\<lparr>m_isHistoryNode := isHistory, m_type := History\<rparr>
                    else n\<lparr>m_isHistoryNode := isHistory\<rparr>) h"

definition SetCalculationFunc :: "addr \<Rightarrow> CalculationFunc option \<Rightarrow> 'e heap \<Rightarrow> 'e heap" where
  "SetCalculationFunc a func h = modify a (\<lambda>n. n\<lparr>m_calculateFunc := func\<rparr>) h"

subsection \<open>Push: InvalidateChildren, MarkDirty, SetBaseValue\<close>

definition cleanNodes :: "'e heap \<Rightarrow> addr set" where
  "cleanNodes h = {a. \<exists>n. fmlookup h a = Some n \<and> \<not> m_isDirty n}"

text \<open>
  \<^verbatim>\<open>InvalidateChildren\<close>, as the loop over a list of children: \<open>InvalidateChildren h cs\<close> runs
  the \<^verbatim>\<open>for\<close> loop over the child pointers \<open>cs\<close>; the recursive call
  \<^verbatim>\<open>child->InvalidateChildren()\<close> is the loop over the child's own \<open>m_children\<close>.
\<close>

function InvalidateChildren :: "'e heap \<Rightarrow> addr list \<Rightarrow> 'e heap" where
  "InvalidateChildren h [] = h"
| "InvalidateChildren h (c # cs) =
     (case fmlookup h c of
        None \<Rightarrow> InvalidateChildren h cs
      | Some child \<Rightarrow>
          if \<not> m_isDirty child
          then InvalidateChildren
                 (InvalidateChildren (fmupd c (child\<lparr>m_isDirty := True\<rparr>) h) (m_children child)) cs
          else InvalidateChildren h cs)"
  by pat_completeness auto

lemma finite_cleanNodes: "finite (cleanNodes h)"
proof -
  have "cleanNodes h \<subseteq> fmdom' h"
    by (auto simp: cleanNodes_def intro: fmdom'I)
  then show ?thesis
    by (rule finite_subset) simp
qed

lemma cleanNodes_mark:
  assumes "fmlookup h c = Some child" and "\<not> m_isDirty child"
  shows "cleanNodes (fmupd c (child\<lparr>m_isDirty := True\<rparr>) h) = cleanNodes h - {c}"
  using assms by (auto simp: cleanNodes_def)

lemma card_cleanNodes_mark:
  assumes "fmlookup h c = Some child" and "\<not> m_isDirty child"
  shows "card (cleanNodes (fmupd c (child\<lparr>m_isDirty := True\<rparr>) h)) < card (cleanNodes h)"
proof -
  have "c \<in> cleanNodes h"
    using assms by (auto simp: cleanNodes_def)
  then have "card (cleanNodes h - {c}) < card (cleanNodes h)"
    by (rule card_Diff1_less [OF finite_cleanNodes])
  then show ?thesis
    by (simp only: cleanNodes_mark [OF assms])
qed

lemma InvalidateChildren_shrinks:
  "InvalidateChildren_dom (h, cs) \<Longrightarrow> cleanNodes (InvalidateChildren h cs) \<subseteq> cleanNodes h"
proof (induction h cs rule: InvalidateChildren.pinduct)
  case (1 h)
  then show ?case by (simp add: InvalidateChildren.psimps)
next
  case (2 h c cs)
  show ?case
  proof (cases "fmlookup h c")
    case None
    with 2 show ?thesis by (simp add: InvalidateChildren.psimps)
  next
    case (Some child)
    show ?thesis
    proof (cases "m_isDirty child")
      case True
      with 2 Some show ?thesis by (simp add: InvalidateChildren.psimps)
    next
      case False
      let ?h1 = "fmupd c (child\<lparr>m_isDirty := True\<rparr>) h"
      let ?h2 = "InvalidateChildren ?h1 (m_children child)"
      have a: "cleanNodes ?h2 \<subseteq> cleanNodes ?h1"
        using 2(3) [OF Some] False by simp
      have b: "cleanNodes (InvalidateChildren ?h2 cs) \<subseteq> cleanNodes ?h2"
        using 2(4) [OF Some] False by simp
      have c: "cleanNodes ?h1 \<subseteq> cleanNodes h"
        using cleanNodes_mark [OF Some False] by auto
      have "InvalidateChildren h (c # cs) = InvalidateChildren ?h2 cs"
        using 2(1) Some False by (simp add: InvalidateChildren.psimps)
      with a b c show ?thesis by auto
    qed
  qed
qed

lemma card_InvalidateChildren_mark:
  assumes "fmlookup h c = Some child" and "\<not> m_isDirty child"
    and "InvalidateChildren_dom (fmupd c (child\<lparr>m_isDirty := True\<rparr>) h, m_children child)"
  shows "card (cleanNodes (InvalidateChildren (fmupd c (child\<lparr>m_isDirty := True\<rparr>) h) (m_children child)))
      < card (cleanNodes h)"
proof -
  have "card (cleanNodes (InvalidateChildren (fmupd c (child\<lparr>m_isDirty := True\<rparr>) h) (m_children child)))
      \<le> card (cleanNodes (fmupd c (child\<lparr>m_isDirty := True\<rparr>) h))"
    by (rule card_mono [OF finite_cleanNodes InvalidateChildren_shrinks [OF assms(3)]])
  also have "\<dots> < card (cleanNodes h)"
    by (rule card_cleanNodes_mark [OF assms(1,2)])
  finally show ?thesis .
qed

termination InvalidateChildren
  apply (relation "measures [\<lambda>(h, cs). card (cleanNodes h), \<lambda>(h, cs). length cs]")
  apply (simp_all add: card_cleanNodes_mark card_InvalidateChildren_mark)
  done

definition MarkDirty :: "addr \<Rightarrow> 'e heap \<Rightarrow> 'e heap" where
  "MarkDirty a h =
     (case fmlookup h a of
        None \<Rightarrow> h
      | Some n \<Rightarrow>
          if \<not> m_isDirty n
          then InvalidateChildren (fmupd a (n\<lparr>m_isDirty := True\<rparr>) h) (m_children n)
          else h)"

definition SetBaseValue :: "addr \<Rightarrow> real \<Rightarrow> 'e heap \<Rightarrow> 'e heap" where
  "SetBaseValue a v h =
     (case fmlookup h a of
        None \<Rightarrow> h
      | Some n \<Rightarrow>
          if m_baseValue n = v then h
          else
            let n1 = n\<lparr>m_baseValue := v\<rparr>;
                n2 = (if m_type n1 = Base \<or> m_type n1 = History
                      then n1\<lparr>m_cachedValue := v\<rparr> else n1)
            in InvalidateChildren (fmupd a n2 h) (m_children n2))"

subsection \<open>Structure: AddParent, AddConditionalParent, GetEdgeStates\<close>

text \<open>
  A null \<^verbatim>\<open>Ptr\<close> is an address that holds no object. The three assignments run in the
  order of the source, so that a node added as its own parent is handled as the code does.
\<close>

definition AddParent :: "addr \<Rightarrow> addr \<Rightarrow> 'e heap \<Rightarrow> 'e heap" where
  "AddParent a parent h =
     (case fmlookup h parent of
        None \<Rightarrow> h
      | Some _ \<Rightarrow>
          let h1 = modify a (\<lambda>n. n\<lparr>m_parents := m_parents n @ [parent]\<rparr>) h;
              h2 = modify parent (\<lambda>n. n\<lparr>m_children := m_children n @ [a]\<rparr>) h1
          in modify a (\<lambda>n. if m_type n = Derived then n\<lparr>m_isDirty := True\<rparr> else n) h2)"

definition AddConditionalParent ::
  "addr \<Rightarrow> addr \<Rightarrow> ('e \<Rightarrow> bool) option \<Rightarrow> string \<Rightarrow> 'e heap \<Rightarrow> 'e heap" where
  "AddConditionalParent a parent cond desc h =
     (case fmlookup h parent of
        None \<Rightarrow> h
      | Some _ \<Rightarrow>
          let cp = \<lparr> cp_node = parent, cp_condition = cond, conditionDesc = desc,
                     lastActive = True \<rparr>;
              h1 = modify a (\<lambda>n. n\<lparr>m_conditionalParents := m_conditionalParents n @ [cp]\<rparr>) h;
              h2 = modify parent (\<lambda>n. n\<lparr>m_children := m_children n @ [a]\<rparr>) h1
          in modify a (\<lambda>n. n\<lparr>m_isDirty := True\<rparr>) h2)"

definition GetEdgeStates :: "'e \<Rightarrow> 'e heap \<Rightarrow> 'e StatNode \<Rightarrow> EdgeState list" where
  "GetEdgeStates e h n =
     List.map_filter
       (\<lambda>p. case fmlookup h p of
               None \<Rightarrow> None
             | Some parent \<Rightarrow>
                 Some \<lparr> fromId = m_id parent, toId = m_id n, isActive = True,
                        isConditional = False, condition = [] \<rparr>)
       (m_parents n)
     @
     List.map_filter
       (\<lambda>cp. case fmlookup h (cp_node cp) of
                None \<Rightarrow> None
              | Some parent \<Rightarrow>
                  let active = (case cp_condition cp of Some c \<Rightarrow> c e | None \<Rightarrow> True)
                  in Some \<lparr> fromId = m_id parent, toId = m_id n, isActive = active,
                            isConditional = True, condition = conditionDesc cp \<rparr>)
       (m_conditionalParents n)"

subsection \<open>The event queries of HistoryNode.h\<close>

definition GetAge :: "real \<Rightarrow> TimestampedEvent \<Rightarrow> real" where
  "GetAge now ev = now - timestamp ev"

definition IsWithinWindow :: "real \<Rightarrow> TimestampedEvent \<Rightarrow> real \<Rightarrow> bool" where
  "IsWithinWindow now ev windowSeconds \<longleftrightarrow> GetAge now ev \<le> windowSeconds"

definition MAX_EVENTS :: nat where
  "MAX_EVENTS = 1000"

definition DEFAULT_WINDOW :: real where
  "DEFAULT_WINDOW = 4"

definition SumRecent :: "real \<Rightarrow> HistoryPart \<Rightarrow> real \<Rightarrow> real" where
  "SumRecent now hp windowSeconds =
     foldl (\<lambda>sum ev. if IsWithinWindow now ev windowSeconds then sum + ev_value ev else sum)
       0 (m_events hp)"

definition SumRecentByType :: "real \<Rightarrow> HistoryPart \<Rightarrow> real \<Rightarrow> string \<Rightarrow> real" where
  "SumRecentByType now hp windowSeconds ty =
     foldl (\<lambda>sum ev. if eventType ev = ty \<and> IsWithinWindow now ev windowSeconds
                      then sum + ev_value ev else sum)
       0 (m_events hp)"

definition CountRecent :: "real \<Rightarrow> HistoryPart \<Rightarrow> real \<Rightarrow> nat" where
  "CountRecent now hp windowSeconds =
     foldl (\<lambda>count ev. if IsWithinWindow now ev windowSeconds then count + 1 else count)
       0 (m_events hp)"

definition GetEventCount :: "HistoryPart \<Rightarrow> nat" where
  "GetEventCount hp = length (m_events hp)"


subsection \<open>Pull: GetValue\<close>

text \<open>
  The two loops of \<^verbatim>\<open>GetValue\<close> over \<open>m_parents\<close> and \<open>m_conditionalParents\<close>. Each takes the
  recursive call \<open>g\<close> (the parent's \<^verbatim>\<open>GetValue\<close>), threads the heap through the calls and
  collects the values in the order of \<^verbatim>\<open>push_back\<close>. \<open>None\<close> is a call that did not return.
\<close>

fun pullParents ::
  "('e heap \<Rightarrow> addr \<Rightarrow> (real \<times> 'e heap) option) \<Rightarrow> 'e heap \<Rightarrow> addr list
     \<Rightarrow> (real list \<times> 'e heap) option" where
  "pullParents g h [] = Some ([], h)"
| "pullParents g h (p # ps) =
     (case fmlookup h p of
        None \<Rightarrow> pullParents g h ps
      | Some _ \<Rightarrow>
          (case g h p of
             None \<Rightarrow> None
           | Some (v, h1) \<Rightarrow>
               (case pullParents g h1 ps of
                  None \<Rightarrow> None
                | Some (vs, h2) \<Rightarrow> Some (v # vs, h2))))"

fun pullConditional ::
  "('e heap \<Rightarrow> addr \<Rightarrow> (real \<times> 'e heap) option) \<Rightarrow> 'e \<Rightarrow> 'e heap
     \<Rightarrow> 'e ConditionalParent list \<Rightarrow> (real list \<times> 'e heap) option" where
  "pullConditional g e h [] = Some ([], h)"
| "pullConditional g e h (cp # cps) =
     (if (case cp_condition cp of None \<Rightarrow> False | Some c \<Rightarrow> c e)
      then
        (case fmlookup h (cp_node cp) of
           None \<Rightarrow> pullConditional g e h cps
         | Some _ \<Rightarrow>
             (case g h (cp_node cp) of
                None \<Rightarrow> None
              | Some (v, h1) \<Rightarrow>
                  (case pullConditional g e h1 cps of
                     None \<Rightarrow> None
                   | Some (vs, h2) \<Rightarrow> Some (v # vs, h2))))
      else pullConditional g e h cps)"

text \<open>
  The call \<^verbatim>\<open>m_calculateFunc(parentValues)\<close>. The lambda of \<^verbatim>\<open>HistoryStatNode\<close> ignores the
  parent values and reads the events of its own object; only a \<^verbatim>\<open>HistoryStatNode\<close> installs
  it, and on an object without events the model gives the sum of no events.
\<close>

definition applyCalc :: "CalculationFunc \<Rightarrow> real \<Rightarrow> 'e StatNode \<Rightarrow> real list \<Rightarrow> real" where
  "applyCalc f now n parentValues =
     (case f of
        Custom g \<Rightarrow> g parentValues
      | SumRecentDefault \<Rightarrow>
          (case m_history n of
             None \<Rightarrow> 0
           | Some hp \<Rightarrow> SumRecent now hp (m_defaultWindow hp)))"

text \<open>
  \<^verbatim>\<open>GetValue\<close> recurses through the parent pointers and returns on an acyclic graph only;
  the first argument bounds the depth of the recursion, and \<open>None\<close> is a call that did not
  return within it (or a call on an address without object).
\<close>

primrec GetValue :: "nat \<Rightarrow> 'e \<Rightarrow> real \<Rightarrow> 'e heap \<Rightarrow> addr \<Rightarrow> (real \<times> 'e heap) option" where
  "GetValue 0 = (\<lambda>e now h a. None)"
| "GetValue (Suc k) = (\<lambda>e now h a.
     (case fmlookup h a of
        None \<Rightarrow> None
      | Some n \<Rightarrow>
          if m_type n = Base \<or> m_type n = History then Some (m_baseValue n, h)
          else if \<not> m_isDirty n then Some (m_cachedValue n, h)
          else
            (case pullParents (GetValue k e now) h (m_parents n) of
               None \<Rightarrow> None
             | Some (vs1, h1) \<Rightarrow>
                 (case pullConditional (GetValue k e now) e h1 (m_conditionalParents n) of
                    None \<Rightarrow> None
                  | Some (vs2, h2) \<Rightarrow>
                      let parentValues = vs1 @ vs2;
                          v = (case m_calculateFunc n of
                                 Some f \<Rightarrow> applyCalc f now n parentValues
                               | None \<Rightarrow> foldl (+) 0 parentValues)
                      in Some (v, modify a (\<lambda>m. m\<lparr>m_cachedValue := v, m_isDirty := False\<rparr>) h2)))))"

definition GetCachedValue :: "'e StatNode \<Rightarrow> real" where
  "GetCachedValue n =
     (if m_type n = Base \<or> m_type n = History then m_baseValue n else m_cachedValue n)"

section \<open>HistoryNode.h: recording events\<close>

text \<open>The constructor \<^verbatim>\<open>HistoryStatNode(id, label, windowSeconds)\<close>, run at time \<open>now\<close>.\<close>

definition new_HistoryStatNode :: "string \<Rightarrow> string \<Rightarrow> real \<Rightarrow> real \<Rightarrow> 'e StatNode" where
  "new_HistoryStatNode i l windowSeconds now =
     (new_StatNode i l 0 Derived)
       \<lparr> m_calculateFunc := Some SumRecentDefault,
         m_history := Some \<lparr> m_events = [], m_defaultWindow = windowSeconds,
                             m_lastCleanup = now \<rparr> \<rparr>"

text \<open>The loop \<^verbatim>\<open>while (m_events.size() > MAX_EVENTS) m_events.pop_front();\<close>\<close>

function popExcess :: "TimestampedEvent list \<Rightarrow> TimestampedEvent list" where
  "popExcess es = (if length es > MAX_EVENTS then popExcess (tl es) else es)"
  by pat_completeness auto
termination
  by (relation "measure length") auto

declare popExcess.simps [simp del]

definition RecordEvent :: "addr \<Rightarrow> real \<Rightarrow> real \<Rightarrow> string \<Rightarrow> 'e heap \<Rightarrow> 'e heap" where
  "RecordEvent a now v ty h =
     (case fmlookup h a of
        None \<Rightarrow> h
      | Some n \<Rightarrow>
          (case m_history n of
             None \<Rightarrow> h
           | Some hp \<Rightarrow>
               let es = popExcess (m_events hp @ [\<lparr> ev_value = v, timestamp = now, eventType = ty \<rparr>])
               in MarkDirty a (fmupd a (n\<lparr>m_history := Some (hp\<lparr>m_events := es\<rparr>)\<rparr>) h)))"

definition RecordEventAt :: "addr \<Rightarrow> real \<Rightarrow> real \<Rightarrow> string \<Rightarrow> 'e heap \<Rightarrow> 'e heap" where
  "RecordEventAt a v time ty h =
     (case fmlookup h a of
        None \<Rightarrow> h
      | Some n \<Rightarrow>
          (case m_history n of
             None \<Rightarrow> h
           | Some hp \<Rightarrow>
               let es = m_events hp @ [\<lparr> ev_value = v, timestamp = time, eventType = ty \<rparr>]
               in MarkDirty a (fmupd a (n\<lparr>m_history := Some (hp\<lparr>m_events := es\<rparr>)\<rparr>) h)))"

text \<open>A sequence of recording calls on one node; each \<^verbatim>\<open>RecordEvent\<close> carries its clock reading.\<close>

datatype RecordOp = DoRecordEvent real real string | DoRecordEventAt real real string

fun runRecordOp :: "addr \<Rightarrow> RecordOp \<Rightarrow> 'e heap \<Rightarrow> 'e heap" where
  "runRecordOp a (DoRecordEvent now v ty) h = RecordEvent a now v ty h"
| "runRecordOp a (DoRecordEventAt v time ty) h = RecordEventAt a v time ty h"

definition runRecordOps :: "addr \<Rightarrow> RecordOp list \<Rightarrow> 'e heap \<Rightarrow> 'e heap" where
  "runRecordOps a ops h = foldl (\<lambda>h' op. runRecordOp a op h') h ops"

definition ledgerAt :: "'e heap \<Rightarrow> addr \<Rightarrow> HistoryPart option" where
  "ledgerAt h a = (case fmlookup h a of None \<Rightarrow> None | Some n \<Rightarrow> m_history n)"

definition eventsAt :: "'e heap \<Rightarrow> addr \<Rightarrow> TimestampedEvent list" where
  "eventsAt h a = (case ledgerAt h a of None \<Rightarrow> [] | Some hp \<Rightarrow> m_events hp)"

section \<open>Modifier.h\<close>

datatype ModifierType = Flat | Increased | More | Override

text \<open>\<^verbatim>\<open>static_cast<int>\<close> of a \<^verbatim>\<open>ModifierType\<close>: the position in the enum.\<close>

fun ModifierType_int :: "ModifierType \<Rightarrow> int" where
  "ModifierType_int Flat = 0"
| "ModifierType_int Increased = 1"
| "ModifierType_int More = 2"
| "ModifierType_int Override = 3"

text \<open>
  A modifier; \<open>'c\<close> is the \<^verbatim>\<open>ModifierContext\<close> that conditions and dynamic values read.
  The aggregator holds \<^verbatim>\<open>shared_ptr<Modifier>\<close>; the model holds the modifier objects
  themselves, so the sharing of one modifier between a producer and an aggregator is not
  modelled.
\<close>

record 'c Modifier =
  mod_id :: string
  m_description :: string
  m_sourceId :: string
  m_targetStatId :: string
  mod_type :: ModifierType
  m_value :: real
  m_priority :: int
  m_condition :: "('c \<Rightarrow> bool) option"
  m_dynamicValue :: "('c \<Rightarrow> real) option"
  m_isActive :: bool
  m_conditionMet :: bool

definition new_Modifier :: "string \<Rightarrow> string \<Rightarrow> ModifierType \<Rightarrow> real \<Rightarrow> string \<Rightarrow> 'c Modifier" where
  "new_Modifier i targetStatId ty v description =
     \<lparr> mod_id = i, m_description = description, m_sourceId = [], m_targetStatId = targetStatId,
       mod_type = ty, m_value = v, m_priority = 0, m_condition = None, m_dynamicValue = None,
       m_isActive = True, m_conditionMet = True \<rparr>"

definition EvaluateCondition :: "'c \<Rightarrow> 'c Modifier \<Rightarrow> bool \<times> 'c Modifier" where
  "EvaluateCondition ctx m =
     (if \<not> m_isActive m then (False, m\<lparr>m_conditionMet := False\<rparr>)
      else
        let met = (case m_condition m of Some c \<Rightarrow> c ctx | None \<Rightarrow> True)
        in (met, m\<lparr>m_conditionMet := met\<rparr>))"

definition Modifier_GetValue :: "'c \<Rightarrow> 'c Modifier \<Rightarrow> real" where
  "Modifier_GetValue ctx m =
     (if \<not> m_conditionMet m then 0
      else (case m_dynamicValue m of Some f \<Rightarrow> f ctx | None \<Rightarrow> m_value m))"

definition GetEffectiveValue :: "'c \<Rightarrow> 'c Modifier \<Rightarrow> real" where
  "GetEffectiveValue ctx m =
     (let val = Modifier_GetValue ctx m
      in case mod_type m of More \<Rightarrow> 1 + val | _ \<Rightarrow> val)"

subsection \<open>ModifierAggregator\<close>

text \<open>
  The comparator of \<^verbatim>\<open>AddModifier\<close> orders by the pair (type, priority), lexicographically.
  \<^verbatim>\<open>std::sort\<close> leaves the order of modifiers with equal pairs open; the model sorts stably.
\<close>

definition sortKey :: "'c Modifier \<Rightarrow> int \<times> int" where
  "sortKey m = (ModifierType_int (mod_type m), m_priority m)"

definition AddModifier :: "'c Modifier \<Rightarrow> 'c Modifier list \<Rightarrow> 'c Modifier list" where
  "AddModifier m ms = sort_key sortKey (ms @ [m])"

definition RemoveModifier :: "string \<Rightarrow> 'c Modifier list \<Rightarrow> 'c Modifier list" where
  "RemoveModifier modifierId ms = filter (\<lambda>m. \<not> mod_id m = modifierId) ms"

definition RemoveModifiersBySource :: "string \<Rightarrow> 'c Modifier list \<Rightarrow> 'c Modifier list" where
  "RemoveModifiersBySource sourceId ms = filter (\<lambda>m. \<not> m_sourceId m = sourceId) ms"

text \<open>The local variables of \<^verbatim>\<open>Calculate\<close>.\<close>

record CalcAcc =
  acc_flat :: real
  acc_increased :: real
  acc_more :: real
  acc_override :: "real option"

text \<open>
  The body of the loop of \<^verbatim>\<open>Calculate\<close>: it returns the new locals and the modifier with
  its condition cache written.
\<close>

definition Calculate_step :: "'c \<Rightarrow> CalcAcc \<Rightarrow> 'c Modifier \<Rightarrow> CalcAcc \<times> 'c Modifier" where
  "Calculate_step ctx acc m =
     (case EvaluateCondition ctx m of
        (met, m') \<Rightarrow>
          if \<not> met then (acc, m')
          else
            let val = Modifier_GetValue ctx m'
            in (case mod_type m' of
                  Flat \<Rightarrow> acc\<lparr>acc_flat := acc_flat acc + val\<rparr>
                | Increased \<Rightarrow> acc\<lparr>acc_increased := acc_increased acc + val\<rparr>
                | More \<Rightarrow> acc\<lparr>acc_more := acc_more acc * (1 + val)\<rparr>
                | Override \<Rightarrow> acc\<lparr>acc_override := Some val\<rparr>,
                m'))"

fun Calculate_loop :: "'c \<Rightarrow> CalcAcc \<Rightarrow> 'c Modifier list \<Rightarrow> CalcAcc \<times> 'c Modifier list" where
  "Calculate_loop ctx acc [] = (acc, [])"
| "Calculate_loop ctx acc (m # ms) =
     (case Calculate_step ctx acc m of
        (acc', m') \<Rightarrow>
          (case Calculate_loop ctx acc' ms of (acc'', ms') \<Rightarrow> (acc'', m' # ms')))"

text \<open>\<^verbatim>\<open>Calculate\<close> returns the value, and leaves the modifiers with their caches written.\<close>

definition Calculate :: "real \<Rightarrow> 'c \<Rightarrow> 'c Modifier list \<Rightarrow> real \<times> 'c Modifier list" where
  "Calculate baseValue ctx ms =
     (case Calculate_loop ctx \<lparr> acc_flat = 0, acc_increased = 0, acc_more = 1, acc_override = None \<rparr> ms of
        (acc, ms') \<Rightarrow>
          (case acc_override acc of
             Some v \<Rightarrow> (v, ms')
           | None \<Rightarrow> ((baseValue + acc_flat acc) * (1 + acc_increased acc) * acc_more acc, ms')))"

section \<open>GraphManagerV2.h\<close>

text \<open>
  The members of \<^verbatim>\<open>GraphManager\<close> that the operations below read or write. The manager owns
  the node objects, so its state includes their heap; \<open>m_nodes\<close> and \<open>m_historyNodes\<close> map an
  id to the address of the object. \<open>m_modifiers\<close> is the \<^verbatim>\<open>unordered_map\<close> from a stat id to
  its aggregator, as the list of its entries in the order a \<^verbatim>\<open>for\<close> loop visits them; a new
  key goes to the end. The tag container, the three \<^verbatim>\<open>RecentlyTracker\<close> members and
  \<open>m_lastTick\<close> are left out: no operation below touches them.
\<close>

record ('e, 'c) GraphManager =
  heap :: "'e heap"
  m_nodes :: "(string, addr) fmap"
  m_historyNodes :: "(string, addr) fmap"
  m_nodeOrder :: "string list"
  m_modifiers :: "(string \<times> 'c Modifier list) list"
  m_hasChanges :: bool

definition new_GraphManager :: "('e, 'c) GraphManager" where
  "new_GraphManager =
     \<lparr> heap = fmempty, m_nodes = fmempty, m_historyNodes = fmempty, m_nodeOrder = [],
       m_modifiers = [], m_hasChanges = False \<rparr>"

text \<open>
  \<^verbatim>\<open>RegisterNode\<close> throws \<^verbatim>\<open>std::runtime_error\<close> on an id that is taken: \<open>Inl\<close> carries the
  message and the state the manager is left in.
\<close>

definition RegisterNode ::
  "addr \<Rightarrow> ('e, 'c) GraphManager \<Rightarrow> (string \<times> ('e, 'c) GraphManager) + ('e, 'c) GraphManager" where
  "RegisterNode a gm =
     (case fmlookup (heap gm) a of
        None \<Rightarrow> Inr gm
      | Some n \<Rightarrow>
          (case fmlookup (m_nodes gm) (m_id n) of
             Some _ \<Rightarrow> Inl (''Node with ID '' @ [CHR 0x27] @ m_id n @ [CHR 0x27] @ '' already exists!'', gm)
           | None \<Rightarrow>
               Inr (gm\<lparr> m_nodes := fmupd (m_id n) a (m_nodes gm),
                        m_nodeOrder := m_nodeOrder gm @ [m_id n],
                        m_hasChanges := True \<rparr>)))"

text \<open>
  \<^verbatim>\<open>std::make_shared\<close> puts the new object at an address \<open>a\<close> that the allocator chooses;
  it is a parameter of the three constructors of nodes.
\<close>

definition CreateBaseStat ::
  "addr \<Rightarrow> string \<Rightarrow> string \<Rightarrow> real \<Rightarrow> string \<Rightarrow> ('e, 'c) GraphManager
     \<Rightarrow> (string \<times> ('e, 'c) GraphManager) + ('e, 'c) GraphManager" where
  "CreateBaseStat a i l baseValue category gm =
     (let h1 = fmupd a (new_StatNode i l baseValue Base) (heap gm);
          h2 = (if category \<noteq> [] then SetCategory a category h1 else h1)
      in RegisterNode a (gm\<lparr>heap := h2\<rparr>))"

definition AddParents :: "addr \<Rightarrow> addr list \<Rightarrow> 'e heap \<Rightarrow> 'e heap" where
  "AddParents a parents h = foldl (\<lambda>h' parent. AddParent a parent h') h parents"

definition CreateDerivedStat ::
  "addr \<Rightarrow> string \<Rightarrow> string \<Rightarrow> addr list \<Rightarrow> CalculationFunc option \<Rightarrow> string
     \<Rightarrow> ('e, 'c) GraphManager \<Rightarrow> (string \<times> ('e, 'c) GraphManager) + ('e, 'c) GraphManager" where
  "CreateDerivedStat a i l parents calcFunc category gm =
     (let h1 = fmupd a (new_StatNode i l 0 Derived) (heap gm);
          h2 = AddParents a parents h1;
          h3 = (case calcFunc of Some f \<Rightarrow> SetCalculationFunc a (Some f) h2 | None \<Rightarrow> h2);
          h4 = (if category \<noteq> [] then SetCategory a category h3 else h3)
      in RegisterNode a (gm\<lparr>heap := h4\<rparr>))"

definition CreateHistoryNode ::
  "addr \<Rightarrow> real \<Rightarrow> string \<Rightarrow> string \<Rightarrow> real \<Rightarrow> string \<Rightarrow> ('e, 'c) GraphManager
     \<Rightarrow> (string \<times> ('e, 'c) GraphManager) + ('e, 'c) GraphManager" where
  "CreateHistoryNode a now i l windowSeconds category gm =
     (let h1 = fmupd a (new_HistoryStatNode i l windowSeconds now) (heap gm);
          h2 = (if category \<noteq> [] then SetCategory a category h1 else h1);
          h3 = SetIsHistoryNode a True h2
      in RegisterNode a (gm\<lparr>heap := h3, m_historyNodes := fmupd i a (m_historyNodes gm)\<rparr>))"

definition GetNode :: "('e, 'c) GraphManager \<Rightarrow> string \<Rightarrow> addr option" where
  "GetNode gm i = fmlookup (m_nodes gm) i"

definition GetHistoryNode :: "('e, 'c) GraphManager \<Rightarrow> string \<Rightarrow> addr option" where
  "GetHistoryNode gm i = fmlookup (m_historyNodes gm) i"

definition SetNodeValue ::
  "string \<Rightarrow> real \<Rightarrow> ('e, 'c) GraphManager \<Rightarrow> bool \<times> ('e, 'c) GraphManager" where
  "SetNodeValue i v gm =
     (case GetNode gm i of
        Some node \<Rightarrow> (True, gm\<lparr>heap := SetBaseValue node v (heap gm), m_hasChanges := True\<rparr>)
      | None \<Rightarrow> (False, gm))"

text \<open>\<^verbatim>\<open>m_modifiers[targetId]\<close>: the entry of the key, made empty when the key is new.\<close>

definition atKey ::
  "string \<Rightarrow> ('c Modifier list \<Rightarrow> 'c Modifier list) \<Rightarrow> (string \<times> 'c Modifier list) list
     \<Rightarrow> (string \<times> 'c Modifier list) list" where
  "atKey k f ms =
     (if k \<in> fst ` set ms then map (\<lambda>(k', agg). if k' = k then (k', f agg) else (k', agg)) ms
      else ms @ [(k, f [])])"

definition GM_AddModifier :: "'c Modifier \<Rightarrow> ('e, 'c) GraphManager \<Rightarrow> ('e, 'c) GraphManager" where
  "GM_AddModifier modifier gm =
     (let targetId = m_targetStatId modifier;
          gm1 = gm\<lparr>m_modifiers := atKey targetId (AddModifier modifier) (m_modifiers gm)\<rparr>
      in case GetNode gm1 targetId of
           Some node \<Rightarrow> gm1\<lparr>heap := MarkDirty node (heap gm1), m_hasChanges := True\<rparr>
         | None \<Rightarrow> gm1)"

definition GM_RemoveModifier :: "string \<Rightarrow> ('e, 'c) GraphManager \<Rightarrow> ('e, 'c) GraphManager" where
  "GM_RemoveModifier modifierId gm =
     gm\<lparr> m_modifiers := map (\<lambda>(statId, aggregator). (statId, RemoveModifier modifierId aggregator))
                            (m_modifiers gm),
         m_hasChanges := True \<rparr>"

text \<open>The loop of \<^verbatim>\<open>RemoveModifiersBySource\<close> over the aggregators.\<close>

fun RemoveModifiersBySource_loop ::
  "(string, addr) fmap \<Rightarrow> string \<Rightarrow> (string \<times> 'c Modifier list) list \<Rightarrow> 'e heap
     \<Rightarrow> (string \<times> 'c Modifier list) list \<times> 'e heap" where
  "RemoveModifiersBySource_loop nodes sourceId [] h = ([], h)"
| "RemoveModifiersBySource_loop nodes sourceId ((statId, aggregator) # rest) h =
     (let aggregator' = RemoveModifiersBySource sourceId aggregator;
          h1 = (case fmlookup nodes statId of Some node \<Rightarrow> MarkDirty node h | None \<Rightarrow> h)
      in case RemoveModifiersBySource_loop nodes sourceId rest h1 of
           (rest', h2) \<Rightarrow> ((statId, aggregator') # rest', h2))"

definition GM_RemoveModifiersBySource ::
  "string \<Rightarrow> ('e, 'c) GraphManager \<Rightarrow> ('e, 'c) GraphManager" where
  "GM_RemoveModifiersBySource sourceId gm =
     (case RemoveModifiersBySource_loop (m_nodes gm) sourceId (m_modifiers gm) (heap gm) of
        (ms, h) \<Rightarrow> gm\<lparr>heap := h, m_modifiers := ms, m_hasChanges := True\<rparr>)"

definition RecordDamage ::
  "real \<Rightarrow> string \<Rightarrow> real \<Rightarrow> string \<Rightarrow> ('e, 'c) GraphManager \<Rightarrow> ('e, 'c) GraphManager" where
  "RecordDamage now historyNodeId amount damageType gm =
     (case GetHistoryNode gm historyNodeId of
        Some histNode \<Rightarrow>
          gm\<lparr>heap := RecordEvent histNode now amount damageType (heap gm), m_hasChanges := True\<rparr>
      | None \<Rightarrow> gm)"

definition HasChanges :: "('e, 'c) GraphManager \<Rightarrow> bool \<times> ('e, 'c) GraphManager" where
  "HasChanges gm = (m_hasChanges gm, gm\<lparr>m_hasChanges := False\<rparr>)"

section \<open>Notions of the specification about the graph\<close>

text \<open>
  The set of dirty nodes; the heap after marking each node of a set dirty, one by one and
  without any propagation; the child edges to objects that exist; the transitive
  descendants of a node through child edges; and the condition that the children of every
  dirty node are dirty.
\<close>

definition dirtySet :: "'e heap \<Rightarrow> addr set" where
  "dirtySet h = {a. \<exists>n. fmlookup h a = Some n \<and> m_isDirty n}"

definition markEach :: "addr set \<Rightarrow> 'e heap \<Rightarrow> 'e heap" where
  "markEach S h = fmmap_keys (\<lambda>a n. if a \<in> S then n\<lparr>m_isDirty := True\<rparr> else n) h"

definition childEdges :: "'e heap \<Rightarrow> (addr \<times> addr) set" where
  "childEdges h = {(a, c). \<exists>n. fmlookup h a = Some n \<and> c \<in> set (m_children n) \<and> c \<in> fmdom' h}"

definition descendants :: "'e heap \<Rightarrow> addr \<Rightarrow> addr set" where
  "descendants h a = {c. (a, c) \<in> (childEdges h)\<^sup>+}"

definition downClosed :: "'e heap \<Rightarrow> bool" where
  "downClosed h \<longleftrightarrow> (\<forall>(a, c) \<in> childEdges h. a \<in> dirtySet h \<longrightarrow> c \<in> dirtySet h)"

text \<open>
  The child edges to nodes that are clean, and the nodes that a path of such edges from a
  node reaches: the descendants that are reached through clean nodes only, themselves
  clean.
\<close>

definition cleanEdges :: "'e heap \<Rightarrow> (addr \<times> addr) set" where
  "cleanEdges h = {(p, c). (p, c) \<in> childEdges h \<and> c \<notin> dirtySet h}"

definition cleanDescendants :: "'e heap \<Rightarrow> addr \<Rightarrow> addr set" where
  "cleanDescendants h a = {x. (a, x) \<in> (cleanEdges h)\<^sup>+}"

text \<open>
  What a run of \<^verbatim>\<open>InvalidateChildren\<close> over the children \<open>cs\<close> has done when it took \<open>h\<close>
  to \<open>h'\<close>: the children in \<open>cs\<close> are dirty, every node it marked has only dirty children,
  and every node it marked is reachable from a child in \<open>cs\<close>.
\<close>

definition swept :: "'e heap \<Rightarrow> addr list \<Rightarrow> 'e heap \<Rightarrow> bool" where
  "swept h cs h' \<longleftrightarrow>
     (\<forall>c \<in> set cs. c \<in> fmdom' h \<longrightarrow> c \<in> dirtySet h') \<and>
     (\<forall>a c. a \<in> dirtySet h' \<and> a \<notin> dirtySet h \<and> (a, c) \<in> childEdges h \<longrightarrow> c \<in> dirtySet h') \<and>
     (\<forall>a. a \<in> dirtySet h' \<and> a \<notin> dirtySet h \<longrightarrow>
        (\<exists>c \<in> set cs. c \<in> fmdom' h \<and> (c, a) \<in> (childEdges h)\<^sup>*))"

text \<open>
  The nodes that the loop of \<^verbatim>\<open>RemoveModifiersBySource\<close> finds: for each aggregator in turn,
  the registered node of its stat id, when there is one. \<open>MarkDirtyEach\<close>: \<^verbatim>\<open>MarkDirty\<close> on each
  node of a list in turn.
\<close>

definition aggregatorNodes :: "('e, 'c) GraphManager \<Rightarrow> addr list" where
  "aggregatorNodes gm =
     List.map_filter (\<lambda>(statId, aggregator). fmlookup (m_nodes gm) statId) (m_modifiers gm)"

definition MarkDirtyEach :: "addr list \<Rightarrow> 'e heap \<Rightarrow> 'e heap" where
  "MarkDirtyEach nodes h = foldl (\<lambda>h' node. MarkDirty node h') h nodes"

definition isHistoryObject :: "'e heap \<Rightarrow> addr \<Rightarrow> bool" where
  "isHistoryObject h a \<longleftrightarrow> ledgerAt h a \<noteq> None"

text \<open>A heap with one fresh \<^verbatim>\<open>HistoryStatNode\<close>, made at time 0 with the default window.\<close>

definition exLedger :: "'e heap" where
  "exLedger = fmupd 0 (new_HistoryStatNode ''damageTaken'' ''Total DMG Taken'' 4 0) fmempty"


section \<open>Notions of the specification about a pull\<close>

text \<open>
  The parents that contribute to a computation, in the order of the value list: every
  ordinary parent, then every conditional parent whose predicate is present and true; of
  these, the ones whose object exists (\<open>inputs\<close>). \<open>calcOf\<close> is the calculation function
  of a node, or the sum when it has none. \<open>dropNull\<close> removes from a node the conditional
  parents that have no predicate.

  \<open>pulled e now h a v\<close>: a pull of node \<open>a\<close> in heap \<open>h\<close> gives \<open>v\<close>, in the words of the
  specification: the base value of a Base or History node, the cached value of a clean
  Derived node, and for a dirty Derived node the calculation applied to the pulled values of
  its inputs. \<open>cachedFrom e now h h'\<close>: \<open>h'\<close> is \<open>h\<close> with the pulled value cached in some of
  its dirty Derived nodes. \<open>ranked r h\<close>: the parent pointers go down along the rank \<open>r\<close>, so
  the graph has no cycle.
\<close>

definition predicateTrue :: "'e \<Rightarrow> 'e ConditionalParent \<Rightarrow> bool" where
  "predicateTrue e cp = (case cp_condition cp of None \<Rightarrow> False | Some c \<Rightarrow> c e)"

definition contributors :: "'e \<Rightarrow> 'e StatNode \<Rightarrow> addr list" where
  "contributors e n =
     m_parents n @ map cp_node (filter (predicateTrue e) (m_conditionalParents n))"

definition calcOf :: "real \<Rightarrow> 'e StatNode \<Rightarrow> real list \<Rightarrow> real" where
  "calcOf now n vs =
     (case m_calculateFunc n of Some f \<Rightarrow> applyCalc f now n vs | None \<Rightarrow> sum_list vs)"

definition dropNull :: "'e StatNode \<Rightarrow> 'e StatNode" where
  "dropNull n =
     n\<lparr>m_conditionalParents := filter (\<lambda>cp. cp_condition cp \<noteq> None) (m_conditionalParents n)\<rparr>"

definition inputs :: "'e \<Rightarrow> 'e heap \<Rightarrow> 'e StatNode \<Rightarrow> addr list" where
  "inputs e h n = filter (\<lambda>p. p \<in> fmdom' h) (contributors e n)"

inductive pulled :: "'e \<Rightarrow> real \<Rightarrow> 'e heap \<Rightarrow> addr \<Rightarrow> real \<Rightarrow> bool"
  for e :: 'e and now :: real and h :: "'e heap" where
  source: "fmlookup h a = Some n \<Longrightarrow> m_type n \<noteq> Derived \<Longrightarrow> pulled e now h a (m_baseValue n)"
| cached: "fmlookup h a = Some n \<Longrightarrow> m_type n = Derived \<Longrightarrow> \<not> m_isDirty n
     \<Longrightarrow> pulled e now h a (m_cachedValue n)"
| recomputed: "fmlookup h a = Some n \<Longrightarrow> m_type n = Derived \<Longrightarrow> m_isDirty n
     \<Longrightarrow> list_all2 (pulled e now h) (inputs e h n) vs
     \<Longrightarrow> pulled e now h a (calcOf now n vs)"

definition cachedFrom :: "'e \<Rightarrow> real \<Rightarrow> 'e heap \<Rightarrow> 'e heap \<Rightarrow> bool" where
  "cachedFrom e now h h' \<longleftrightarrow>
     (\<forall>b. rel_option
        (\<lambda>n n'. n' = n \<or>
           (m_type n = Derived \<and> m_isDirty n \<and>
            (\<exists>w. pulled e now h b w \<and> n' = n\<lparr>m_cachedValue := w, m_isDirty := False\<rparr>)))
        (fmlookup h b) (fmlookup h' b))"

definition parentsOf :: "'e StatNode \<Rightarrow> addr list" where
  "parentsOf n = m_parents n @ map cp_node (m_conditionalParents n)"

definition ranked :: "(addr \<Rightarrow> nat) \<Rightarrow> 'e heap \<Rightarrow> bool" where
  "ranked r h \<longleftrightarrow> (\<forall>a n. fmlookup h a = Some n \<longrightarrow> (\<forall>p \<in> set (parentsOf n). r p < r a))"

text \<open>
  The graph of the test of conditional parents: a base of 100, a bonus of 50 and a derived
  node that sums; the predicate of the conditional edge reads a flag, the state \<open>'e\<close>.
  \<open>exNullCondition\<close> is the same graph with an empty predicate on the edge.
\<close>

definition exBase :: "bool heap" where
  "exBase =
     fmupd 2 (new_StatNode ''derived'' ''Derived'' 0 Derived)
       (fmupd 1 (new_StatNode ''bonus'' ''Bonus'' 50 Base)
          (fmupd 0 (new_StatNode ''base'' ''Base'' 100 Base) fmempty))"

definition exConditional :: "bool heap" where
  "exConditional =
     AddConditionalParent 2 1 (Some (\<lambda>conditionMet. conditionMet)) ''Test Condition''
       (AddParent 2 0 exBase)"

definition exNullCondition :: "bool heap" where
  "exNullCondition = AddConditionalParent 2 1 None ''Test Condition'' (AddParent 2 0 exBase)"

text \<open>
  \<open>exDouble\<close>: a base of 10 and a derived node that doubles the sum of its parents.
  \<open>exChain\<close>: a base \<open>A\<close>, a derived \<open>B\<close> with parent \<open>A\<close>, and a derived \<open>D\<close> with the
  conditional parent \<open>B\<close>. \<open>exStale\<close> is \<open>exChain\<close> after a pull of \<open>D\<close> while the predicate
  is false: \<open>D\<close> is clean, and \<open>B\<close>, which was not pulled, is still dirty.
\<close>

definition exDouble :: "unit heap" where
  "exDouble =
     SetCalculationFunc 1 (Some (Custom (\<lambda>vs. 2 * sum_list vs)))
       (AddParent 1 0
          (fmupd 1 (new_StatNode ''derived'' ''Derived'' 0 Derived)
             (fmupd 0 (new_StatNode ''base'' ''Base'' 10 Base) fmempty)))"

definition exChain :: "bool heap" where
  "exChain =
     AddConditionalParent 2 1 (Some (\<lambda>conditionMet. conditionMet)) ''Test Condition''
       (AddParent 1 0
          (fmupd 2 (new_StatNode ''D'' ''D'' 0 Derived)
             (fmupd 1 (new_StatNode ''B'' ''B'' 0 Derived)
                (fmupd 0 (new_StatNode ''A'' ''A'' 10 Base) fmempty))))"

definition exStale :: "bool heap" where
  "exStale = (case GetValue 2 False 0 exChain 2 of None \<Rightarrow> exChain | Some (v, h) \<Rightarrow> h)"

text \<open>
  \<open>exManager\<close>: a new manager after \<^verbatim>\<open>CreateHistoryNode("damageTaken", "Total DMG Taken", 4.0,
  "defense")\<close> at time 0, the object at address 0. \<open>exDamaged\<close>: the same after
  \<^verbatim>\<open>RecordDamage("damageTaken", 10, "Fire")\<close> at time 0.
\<close>

definition exManager :: "(unit, unit) GraphManager" where
  "exManager =
     (case CreateHistoryNode 0 0 ''damageTaken'' ''Total DMG Taken'' 4 ''defense'' new_GraphManager of
        Inl (msg, gm) \<Rightarrow> gm
      | Inr gm \<Rightarrow> gm)"

definition exDamaged :: "(unit, unit) GraphManager" where
  "exDamaged = RecordDamage 0 ''damageTaken'' 10 ''Fire'' exManager"

text \<open>
  \<open>exEquipped\<close>: a new manager after \<^verbatim>\<open>AddModifier\<close> of a flat modifier \<^verbatim>\<open>ring\<close> on the stat
  \<^verbatim>\<open>strength\<close> with the source \<^verbatim>\<open>equipment\<close>, and then \<^verbatim>\<open>CreateBaseStat("strength",
  "Strength", 10)\<close>, the object at address 0.
\<close>

definition exEquipped :: "(unit, unit) GraphManager" where
  "exEquipped =
     (case CreateBaseStat 0 ''strength'' ''Strength'' 10 []
             (GM_AddModifier ((new_Modifier ''ring'' ''strength'' Flat 5 [])\<lparr>m_sourceId := ''equipment''\<rparr>)
                new_GraphManager) of
        Inl (msg, gm) \<Rightarrow> gm
      | Inr gm \<Rightarrow> gm)"

text \<open>
  \<open>ideal e now h a v\<close>: \<open>v\<close> is the value of node \<open>a\<close> by a full recomputation, which reads no
  cached value and no dirty flag. \<open>coherent\<close>: every clean Derived node caches that value.
  \<open>wellLinked\<close>: every parent pointer to an object has its back-reference in the children of
  the parent. \<open>exPulled\<close> is the graph of the test after a pull of the derived node while the
  flag is false.
\<close>

inductive ideal :: "'e \<Rightarrow> real \<Rightarrow> 'e heap \<Rightarrow> addr \<Rightarrow> real \<Rightarrow> bool"
  for e :: 'e and now :: real and h :: "'e heap" where
  source: "fmlookup h a = Some n \<Longrightarrow> m_type n \<noteq> Derived \<Longrightarrow> ideal e now h a (m_baseValue n)"
| derived: "fmlookup h a = Some n \<Longrightarrow> m_type n = Derived
     \<Longrightarrow> list_all2 (ideal e now h) (inputs e h n) vs
     \<Longrightarrow> ideal e now h a (calcOf now n vs)"

definition coherent :: "'e \<Rightarrow> real \<Rightarrow> 'e heap \<Rightarrow> bool" where
  "coherent e now h \<longleftrightarrow>
     (\<forall>a n. fmlookup h a = Some n \<and> m_type n = Derived \<and> \<not> m_isDirty n
        \<longrightarrow> ideal e now h a (m_cachedValue n))"

definition wellLinked :: "'e heap \<Rightarrow> bool" where
  "wellLinked h \<longleftrightarrow>
     (\<forall>x n. fmlookup h x = Some n
        \<longrightarrow> (\<forall>p \<in> set (parentsOf n). p \<in> fmdom' h \<longrightarrow> (p, x) \<in> childEdges h))"

text \<open>
  \<open>inputClosed e h\<close>: no clean Derived node has a dirty Derived node among its inputs.
  \<open>pullSequence\<close>: a sequence of calls of \<^verbatim>\<open>GetValue\<close>, each on the heap the one before left,
  each with its own bound on the depth; it gives the values returned, in order, and the
  last heap, and \<open>None\<close> when a call did not return.
\<close>

definition inputClosed :: "'e \<Rightarrow> 'e heap \<Rightarrow> bool" where
  "inputClosed e h \<longleftrightarrow>
     (\<forall>x n p np. fmlookup h x = Some n \<and> m_type n = Derived \<and> \<not> m_isDirty n
        \<and> p \<in> set (inputs e h n) \<and> fmlookup h p = Some np \<and> m_type np = Derived
        \<longrightarrow> \<not> m_isDirty np)"

fun pullSequence ::
  "'e \<Rightarrow> real \<Rightarrow> 'e heap \<Rightarrow> (nat \<times> addr) list \<Rightarrow> (real list \<times> 'e heap) option" where
  "pullSequence e now h [] = Some ([], h)"
| "pullSequence e now h ((k, d) # ps) =
     (case GetValue k e now h d of
        None \<Rightarrow> None
      | Some (w, h1) \<Rightarrow>
          (case pullSequence e now h1 ps of
             None \<Rightarrow> None
           | Some (ws, h2) \<Rightarrow> Some (w # ws, h2)))"

definition exPulled :: "bool heap" where
  "exPulled = (case GetValue 2 False 0 exConditional 2 of None \<Rightarrow> exConditional | Some (v, h) \<Rightarrow> h)"

section \<open>The stacking law of the aggregator\<close>

text \<open>
  The words of the specification: a modifier's condition holds when the modifier is active
  and its predicate, if it has one, is true in the context; its value is the dynamic value
  if it has one, else the static one.
\<close>

definition applies :: "'c \<Rightarrow> 'c Modifier \<Rightarrow> bool" where
  "applies ctx m \<longleftrightarrow> m_isActive m \<and> (case m_condition m of None \<Rightarrow> True | Some c \<Rightarrow> c ctx)"

definition valueOf :: "'c \<Rightarrow> 'c Modifier \<Rightarrow> real" where
  "valueOf ctx m = (case m_dynamicValue m of Some f \<Rightarrow> f ctx | None \<Rightarrow> m_value m)"

definition applicable :: "'c \<Rightarrow> ModifierType \<Rightarrow> 'c Modifier list \<Rightarrow> 'c Modifier list" where
  "applicable ctx ty ms = filter (\<lambda>m. mod_type m = ty \<and> applies ctx m) ms"

definition exFlat :: "'c Modifier" where
  "exFlat = new_Modifier ''flat'' ''damage'' Flat 10 []"

definition exIncreased :: "'c Modifier" where
  "exIncreased = new_Modifier ''increased'' ''damage'' Increased 0.5 []"

definition exMore :: "'c Modifier" where
  "exMore = new_Modifier ''more'' ''damage'' More 0.2 []"

definition exOverride :: "'c Modifier" where
  "exOverride = new_Modifier ''override'' ''damage'' Override 42 []"

lemmas example_modifiers =
  exFlat_def exIncreased_def exMore_def exOverride_def new_Modifier_def

lemma Calculate_step_skip:
  "\<not> applies ctx m \<Longrightarrow> fst (Calculate_step ctx acc m) = acc"
  by (simp add: Calculate_step_def EvaluateCondition_def applies_def Let_def split: option.splits)

lemma Calculate_step_apply:
  "applies ctx m \<Longrightarrow> fst (Calculate_step ctx acc m) =
     (case mod_type m of
        Flat \<Rightarrow> acc\<lparr>acc_flat := acc_flat acc + valueOf ctx m\<rparr>
      | Increased \<Rightarrow> acc\<lparr>acc_increased := acc_increased acc + valueOf ctx m\<rparr>
      | More \<Rightarrow> acc\<lparr>acc_more := acc_more acc * (1 + valueOf ctx m)\<rparr>
      | Override \<Rightarrow> acc\<lparr>acc_override := Some (valueOf ctx m)\<rparr>)"
  by (auto simp: Calculate_step_def EvaluateCondition_def applies_def Let_def valueOf_def
        Modifier_GetValue_def split: option.splits ModifierType.splits)

lemma Calculate_loop_acc:
  "fst (Calculate_loop ctx acc ms) =
     \<lparr> acc_flat = acc_flat acc + (\<Sum>m\<leftarrow>applicable ctx Flat ms. valueOf ctx m),
       acc_increased = acc_increased acc + (\<Sum>m\<leftarrow>applicable ctx Increased ms. valueOf ctx m),
       acc_more = acc_more acc * (\<Prod>m\<leftarrow>applicable ctx More ms. 1 + valueOf ctx m),
       acc_override = (if applicable ctx Override ms = [] then acc_override acc
                       else Some (valueOf ctx (last (applicable ctx Override ms)))) \<rparr>"
proof (induction ms arbitrary: acc)
  case Nil
  then show ?case by (simp add: applicable_def)
next
  case (Cons m ms)
  obtain acc' m' where s: "Calculate_step ctx acc m = (acc', m')"
    by (cases "Calculate_step ctx acc m")
  have l: "fst (Calculate_loop ctx acc (m # ms)) = fst (Calculate_loop ctx acc' ms)"
    using s by (simp split: prod.splits)
  show ?case
  proof (cases "applies ctx m")
    case False
    then have "acc' = acc" using Calculate_step_skip [of ctx m acc] s by simp
    then show ?thesis
      unfolding l Cons.IH using False by (simp add: applicable_def)
  next
    case True
    show ?thesis
      using Calculate_step_apply [OF True, of acc] s
      unfolding l Cons.IH
      by (cases "mod_type m") (simp_all add: applicable_def True algebra_simps)
  qed
qed

lemma Calculate_value:
  "fst (Calculate b ctx ms) =
     (if applicable ctx Override ms = []
      then (b + (\<Sum>m\<leftarrow>applicable ctx Flat ms. valueOf ctx m))
           * (1 + (\<Sum>m\<leftarrow>applicable ctx Increased ms. valueOf ctx m))
           * (\<Prod>m\<leftarrow>applicable ctx More ms. 1 + valueOf ctx m)
      else valueOf ctx (last (applicable ctx Override ms)))"
proof -
  let ?init = "\<lparr> acc_flat = 0, acc_increased = 0, acc_more = 1, acc_override = None \<rparr>"
  obtain acc ms' where c: "Calculate_loop ctx ?init ms = (acc, ms')"
    by (cases "Calculate_loop ctx ?init ms")
  have "acc = fst (Calculate_loop ctx ?init ms)"
    using c by simp
  then show ?thesis
    unfolding Calculate_loop_acc by (simp add: Calculate_def c)
qed

lemma applicable_sorted:
  "sorted (map sortKey ms) \<Longrightarrow> sorted (map sortKey (applicable ctx ty ms))"
  unfolding applicable_def by (rule sorted_filter)

lemma sorted_le_last:
  fixes xs :: "'a::linorder list"
  shows "sorted xs \<Longrightarrow> x \<in> set xs \<Longrightarrow> x \<le> last xs"
  by (induction xs) (auto simp: last_ConsR split: if_splits)

lemma applicable_type: "m \<in> set (applicable ctx ty ms) \<Longrightarrow> mod_type m = ty"
  by (simp add: applicable_def)

lemma Override_last_priority:
  assumes "sorted (map sortKey ms)" and "m \<in> set (applicable ctx Override ms)"
  shows "m_priority m \<le> m_priority (last (applicable ctx Override ms))"
proof -
  let ?os = "applicable ctx Override ms"
  have ne: "?os \<noteq> []" using assms(2) by auto
  have "sortKey m \<le> last (map sortKey ?os)"
    using applicable_sorted [OF assms(1)] assms(2) by (intro sorted_le_last) auto
  then have "sortKey m \<le> sortKey (last ?os)"
    using ne by (simp add: last_map)
  moreover have "mod_type (last ?os) = Override"
    using ne applicable_type [of "last ?os" ctx Override ms] by simp
  moreover have "mod_type m = Override"
    using assms(2) by (rule applicable_type)
  ultimately show ?thesis
    by (simp add: sortKey_def less_eq_prod_def)
qed

lemma AddModifier_sorted: "sorted (map sortKey (AddModifier m ms))"
  by (simp add: AddModifier_def)

lemma AddModifier_set: "set (AddModifier m ms) = insert m (set ms)"
  by (simp add: AddModifier_def)

lemma RemoveModifier_sorted:
  "sorted (map sortKey ms) \<Longrightarrow> sorted (map sortKey (RemoveModifier i ms))"
  unfolding RemoveModifier_def by (rule sorted_filter)

lemma RemoveModifiersBySource_sorted:
  "sorted (map sortKey ms) \<Longrightarrow> sorted (map sortKey (RemoveModifiersBySource i ms))"
  unfolding RemoveModifiersBySource_def by (rule sorted_filter)

lemma example_three:
  "AddModifier exMore (AddModifier exIncreased (AddModifier exFlat []))
     = [exFlat, exIncreased, exMore]"
  by (simp add: AddModifier_def sortKey_def example_modifiers less_eq_prod_def)

lemma example_four:
  "AddModifier exFlat (AddModifier exOverride (AddModifier exMore (AddModifier exIncreased [])))
     = [exFlat, exIncreased, exMore, exOverride]"
  by (simp add: AddModifier_def sortKey_def example_modifiers less_eq_prod_def)

lemma example_three_value: "fst (Calculate 100 ctx [exFlat, exIncreased, exMore]) = 198"
  by (simp add: Calculate_def Calculate_step_def EvaluateCondition_def Modifier_GetValue_def
        example_modifiers)

lemma example_four_value:
  "fst (Calculate 100 ctx [exFlat, exIncreased, exMore, exOverride]) = 42"
  by (simp add: Calculate_def Calculate_step_def EvaluateCondition_def Modifier_GetValue_def
        example_modifiers)

text \<open>
  Claim C1. For every base value \<open>b\<close>, context and list of modifiers, \<^verbatim>\<open>Calculate\<close> returns
  (\<open>b\<close> + the sum of the Flat values whose conditions hold) * (1 + the sum of the Increased
  values whose conditions hold) * the product of (1 + value) over the More modifiers whose
  conditions hold; when the condition of some Override holds, it returns the value of the
  last such Override in the list instead. \<^verbatim>\<open>AddModifier\<close> leaves the list sorted by
  (type, priority), and in a sorted list the last Override whose condition holds has the
  highest priority of them; when all the Overrides whose conditions hold have one value,
  that value is the result, whatever the other modifiers are. Base 100 with Flat +10,
  Increased +0.5 and More +0.2 gives 198, and with an Override of 42 added the result is 42.
\<close>

theorem C1_Calculate_stacking:
  "fst (Calculate b ctx ms) =
     (if applicable ctx Override ms = []
      then (b + (\<Sum>m\<leftarrow>applicable ctx Flat ms. valueOf ctx m))
           * (1 + (\<Sum>m\<leftarrow>applicable ctx Increased ms. valueOf ctx m))
           * (\<Prod>m\<leftarrow>applicable ctx More ms. 1 + valueOf ctx m)
      else valueOf ctx (last (applicable ctx Override ms)))
   \<and> sorted (map sortKey (AddModifier m ms))
   \<and> (sorted (map sortKey ms) \<longrightarrow>
        (\<forall>m' \<in> set (applicable ctx Override ms).
           m_priority m' \<le> m_priority (last (applicable ctx Override ms))))
   \<and> (applicable ctx Override ms \<noteq> []
        \<and> (\<forall>m' \<in> set (applicable ctx Override ms). valueOf ctx m' = x)
      \<longrightarrow> fst (Calculate b ctx ms) = x)
   \<and> fst (Calculate 100 ctx (AddModifier exMore (AddModifier exIncreased (AddModifier exFlat []))))
       = 198
   \<and> fst (Calculate 100 ctx
        (AddModifier exFlat (AddModifier exOverride (AddModifier exMore (AddModifier exIncreased [])))))
       = 42"
proof (intro conjI)
  show "fst (Calculate b ctx ms) =
     (if applicable ctx Override ms = []
      then (b + (\<Sum>m\<leftarrow>applicable ctx Flat ms. valueOf ctx m))
           * (1 + (\<Sum>m\<leftarrow>applicable ctx Increased ms. valueOf ctx m))
           * (\<Prod>m\<leftarrow>applicable ctx More ms. 1 + valueOf ctx m)
      else valueOf ctx (last (applicable ctx Override ms)))"
    by (rule Calculate_value)
  show "sorted (map sortKey (AddModifier m ms))"
    by (rule AddModifier_sorted)
  show "sorted (map sortKey ms) \<longrightarrow>
        (\<forall>m' \<in> set (applicable ctx Override ms).
           m_priority m' \<le> m_priority (last (applicable ctx Override ms)))"
    by (intro impI ballI) (rule Override_last_priority)
  show "applicable ctx Override ms \<noteq> []
        \<and> (\<forall>m' \<in> set (applicable ctx Override ms). valueOf ctx m' = x)
      \<longrightarrow> fst (Calculate b ctx ms) = x"
    unfolding Calculate_value using last_in_set [of "applicable ctx Override ms"] by auto
  show "fst (Calculate 100 ctx (AddModifier exMore (AddModifier exIncreased (AddModifier exFlat []))))
       = 198"
    by (simp only: example_three example_three_value)
  show "fst (Calculate 100 ctx
        (AddModifier exFlat (AddModifier exOverride (AddModifier exMore (AddModifier exIncreased [])))))
       = 42"
    by (simp only: example_four example_four_value)
qed

theorem C1_Calculate_stacking_witness:
  "sorted (map sortKey [exFlat, exIncreased, exMore, exOverride :: unit Modifier])
   \<and> exOverride \<in> set (applicable () Override [exFlat, exIncreased, exMore, exOverride])
   \<and> m_priority (exOverride :: unit Modifier)
       \<le> m_priority (last (applicable () Override [exFlat, exIncreased, exMore, exOverride]))
   \<and> fst (Calculate 7 () [exFlat, exIncreased, exMore, exOverride])
       = valueOf () (last (applicable () Override [exFlat, exIncreased, exMore, exOverride]))"
proof -
  have s: "sorted (map sortKey [exFlat, exIncreased, exMore, exOverride :: unit Modifier])"
    by (simp add: sortKey_def example_modifiers less_eq_prod_def)
  have a: "applicable () Override [exFlat, exIncreased, exMore, exOverride]
             = [exOverride :: unit Modifier]"
    by (simp add: applicable_def applies_def example_modifiers)
  show ?thesis
    using s a
      C1_Calculate_stacking [of 7 "()" "[exFlat, exIncreased, exMore, exOverride]" exFlat 42]
    by simp
qed

section \<open>Push invalidation: what InvalidateChildren marks\<close>

lemma lookup_markEach:
  "fmlookup (markEach S h) a =
     map_option (\<lambda>n. if a \<in> S then n\<lparr>m_isDirty := True\<rparr> else n) (fmlookup h a)"
  by (simp add: markEach_def)

lemma markEach_empty: "markEach {} h = h"
proof (rule fmap_ext)
  fix x show "fmlookup (markEach {} h) x = fmlookup h x"
    by (cases "fmlookup h x") (simp_all add: lookup_markEach)
qed

lemma markEach_markEach: "markEach T (markEach S h) = markEach (S \<union> T) h"
proof (rule fmap_ext)
  fix x show "fmlookup (markEach T (markEach S h)) x = fmlookup (markEach (S \<union> T) h) x"
    by (cases "fmlookup h x") (simp_all add: lookup_markEach)
qed

lemma fmupd_markEach:
  assumes "fmlookup h c = Some child"
  shows "fmupd c (child\<lparr>m_isDirty := True\<rparr>) h = markEach {c} h"
proof (rule fmap_ext)
  fix x show "fmlookup (fmupd c (child\<lparr>m_isDirty := True\<rparr>) h) x = fmlookup (markEach {c} h) x"
    using assms by (cases "fmlookup h x") (auto simp: lookup_markEach)
qed

lemma mem_dirtySet_markEach:
  "a \<in> dirtySet (markEach S h) \<longleftrightarrow> a \<in> dirtySet h \<or> (a \<in> S \<and> a \<in> fmdom' h)"
  by (cases "fmlookup h a") (auto simp: dirtySet_def lookup_markEach fmlookup_dom'_iff)

lemma dirtySet_markEach: "dirtySet (markEach S h) = dirtySet h \<union> (S \<inter> fmdom' h)"
  using mem_dirtySet_markEach by blast

lemma mem_fmdom'_markEach: "a \<in> fmdom' (markEach S h) \<longleftrightarrow> a \<in> fmdom' h"
  by (cases "fmlookup h a") (auto simp: fmlookup_dom'_iff lookup_markEach)

lemma fmdom'_markEach: "fmdom' (markEach S h) = fmdom' h"
  using mem_fmdom'_markEach by blast

lemma mem_childEdges_markEach: "(a, c) \<in> childEdges (markEach S h) \<longleftrightarrow> (a, c) \<in> childEdges h"
  by (cases "fmlookup h a") (auto simp: childEdges_def lookup_markEach fmdom'_markEach)

lemma childEdges_markEach: "childEdges (markEach S h) = childEdges h"
  using mem_childEdges_markEach by auto

lemma markEach_dirtySet_idem: "markEach (dirtySet (markEach S h)) h = markEach S h"
proof (rule fmap_ext)
  fix x
  show "fmlookup (markEach (dirtySet (markEach S h)) h) x = fmlookup (markEach S h) x"
  proof (cases "fmlookup h x")
    case None
    then show ?thesis by (simp add: lookup_markEach)
  next
    case (Some n)
    then show ?thesis
      by (cases "m_isDirty n")
         (auto simp: lookup_markEach mem_dirtySet_markEach dirtySet_def fmlookup_dom'_iff)
  qed
qed

lemma InvalidateChildren_markEach_ex: "\<exists>S. InvalidateChildren h cs = markEach S h"
proof (induction h cs rule: InvalidateChildren.induct)
  case (1 h)
  show ?case using markEach_empty [of h] by (intro exI [of _ "{}"]) simp
next
  case (2 h c cs)
  show ?case
  proof (cases "fmlookup h c")
    case None
    with 2(1) show ?thesis by simp
  next
    case (Some child)
    show ?thesis
    proof (cases "m_isDirty child")
      case True
      with 2(4) Some show ?thesis by simp
    next
      case False
      let ?h1 = "fmupd c (child\<lparr>m_isDirty := True\<rparr>) h"
      let ?h2 = "InvalidateChildren ?h1 (m_children child)"
      obtain S1 where s1: "?h2 = markEach S1 ?h1"
        using 2(2) [OF Some] False by auto
      obtain S2 where s2: "InvalidateChildren ?h2 cs = markEach S2 ?h2"
        using 2(3) [OF Some] False by auto
      have "InvalidateChildren h (c # cs) = InvalidateChildren ?h2 cs"
        using Some False by simp
      also have "\<dots> = markEach S2 ?h2"
        by (rule s2)
      also have "\<dots> = markEach S2 (markEach S1 ?h1)"
        by (simp only: s1)
      also have "\<dots> = markEach S2 (markEach S1 (markEach {c} h))"
        by (simp only: fmupd_markEach [OF Some])
      also have "\<dots> = markEach (({c} \<union> S1) \<union> S2) h"
        by (simp only: markEach_markEach)
      finally show ?thesis by blast
    qed
  qed
qed

lemma InvalidateChildren_markEach:
  "InvalidateChildren h cs = markEach (dirtySet (InvalidateChildren h cs)) h"
proof -
  obtain S where s: "InvalidateChildren h cs = markEach S h"
    using InvalidateChildren_markEach_ex by blast
  show ?thesis
    unfolding s by (rule markEach_dirtySet_idem [symmetric])
qed

lemma InvalidateChildren_dirty_mono: "dirtySet h \<subseteq> dirtySet (InvalidateChildren h cs)"
proof -
  have "dirtySet h \<subseteq> dirtySet (markEach (dirtySet (InvalidateChildren h cs)) h)"
    unfolding dirtySet_markEach by blast
  then show ?thesis
    by (simp only: InvalidateChildren_markEach [symmetric])
qed

lemma InvalidateChildren_childEdges: "childEdges (InvalidateChildren h cs) = childEdges h"
proof -
  have "childEdges (markEach (dirtySet (InvalidateChildren h cs)) h) = childEdges h"
    by (rule childEdges_markEach)
  then show ?thesis
    by (simp only: InvalidateChildren_markEach [symmetric])
qed

lemma InvalidateChildren_fmdom': "fmdom' (InvalidateChildren h cs) = fmdom' h"
proof -
  have "fmdom' (markEach (dirtySet (InvalidateChildren h cs)) h) = fmdom' h"
    by (rule fmdom'_markEach)
  then show ?thesis
    by (simp only: InvalidateChildren_markEach [symmetric])
qed

lemma InvalidateChildren_swept: "swept h cs (InvalidateChildren h cs)"
proof (induction h cs rule: InvalidateChildren.induct)
  case (1 h)
  show ?case by (auto simp: swept_def)
next
  case (2 h c cs)
  show ?case
  proof (cases "fmlookup h c")
    case None
    then have nd: "c \<notin> fmdom' h" by (simp add: fmdom'_notI)
    have e: "InvalidateChildren h (c # cs) = InvalidateChildren h cs"
      using None by simp
    have "swept h cs (InvalidateChildren h cs)"
      using 2(1) [OF None] .
    then show ?thesis
      unfolding e swept_def using nd by auto
  next
    case (Some child)
    show ?thesis
    proof (cases "m_isDirty child")
      case True
      have cd: "c \<in> dirtySet h"
        using Some True by (auto simp: dirtySet_def)
      have e: "InvalidateChildren h (c # cs) = InvalidateChildren h cs"
        using Some True by simp
      have "swept h cs (InvalidateChildren h cs)"
        using 2(4) [OF Some] True by simp
      then show ?thesis
        unfolding e swept_def
        using cd InvalidateChildren_dirty_mono [of h cs] by auto
    next
      case False
      let ?E = "childEdges h"
      let ?h1 = "fmupd c (child\<lparr>m_isDirty := True\<rparr>) h"
      let ?h2 = "InvalidateChildren ?h1 (m_children child)"
      let ?h3 = "InvalidateChildren ?h2 cs"
      have e: "InvalidateChildren h (c # cs) = ?h3"
        using Some False by simp
      have h1: "?h1 = markEach {c} h"
        by (rule fmupd_markEach [OF Some])
      have cdom: "c \<in> fmdom' h"
        using Some by (rule fmdom'I)
      have d1: "dirtySet ?h1 = insert c (dirtySet h)"
        unfolding h1 dirtySet_markEach using cdom by auto
      have E1: "childEdges ?h1 = ?E"
        unfolding h1 by (rule childEdges_markEach)
      have dom1: "fmdom' ?h1 = fmdom' h"
        unfolding h1 by (rule fmdom'_markEach)
      have E2: "childEdges ?h2 = ?E"
        using InvalidateChildren_childEdges [of ?h1 "m_children child"] E1 by simp
      have dom2: "fmdom' ?h2 = fmdom' h"
        using InvalidateChildren_fmdom' [of ?h1 "m_children child"] dom1 by simp
      have m12: "dirtySet ?h1 \<subseteq> dirtySet ?h2"
        by (rule InvalidateChildren_dirty_mono)
      have m23: "dirtySet ?h2 \<subseteq> dirtySet ?h3"
        by (rule InvalidateChildren_dirty_mono)
      have s1: "swept ?h1 (m_children child) ?h2"
        using 2(2) [OF Some] False by simp
      have s2: "swept ?h2 cs ?h3"
        using 2(3) [OF Some] False by simp
      have ce: "\<And>x. (c, x) \<in> ?E \<longleftrightarrow> x \<in> set (m_children child) \<and> x \<in> fmdom' h"
        using Some by (auto simp: childEdges_def)
      have g1: "\<forall>x \<in> set (c # cs). x \<in> fmdom' h \<longrightarrow> x \<in> dirtySet ?h3"
      proof (intro ballI impI)
        fix x assume x: "x \<in> set (c # cs)" "x \<in> fmdom' h"
        show "x \<in> dirtySet ?h3"
        proof (cases "x = c")
          case True
          then show ?thesis using d1 m12 m23 by blast
        next
          case False
          then have "x \<in> set cs" using x by simp
          then show ?thesis using s2 x(2) dom2 unfolding swept_def by blast
        qed
      qed
      have g2: "\<forall>a x. a \<in> dirtySet ?h3 \<and> a \<notin> dirtySet h \<and> (a, x) \<in> ?E \<longrightarrow> x \<in> dirtySet ?h3"
      proof (intro allI impI, elim conjE)
        fix a x assume a: "a \<in> dirtySet ?h3" "a \<notin> dirtySet h" "(a, x) \<in> ?E"
        consider "a \<notin> dirtySet ?h2" | "a \<in> dirtySet ?h2" "a \<notin> dirtySet ?h1" | "a = c"
          using a(2) d1 by blast
        then show "x \<in> dirtySet ?h3"
        proof cases
          case 1
          then show ?thesis using s2 a E2 unfolding swept_def by blast
        next
          case 2
          then have "x \<in> dirtySet ?h2" using s1 a(3) E1 unfolding swept_def by blast
          then show ?thesis using m23 by blast
        next
          case 3
          then have "x \<in> set (m_children child)" "x \<in> fmdom' ?h1"
            using a(3) ce dom1 by auto
          then have "x \<in> dirtySet ?h2" using s1 unfolding swept_def by blast
          then show ?thesis using m23 by blast
        qed
      qed
      have g3: "\<forall>a. a \<in> dirtySet ?h3 \<and> a \<notin> dirtySet h \<longrightarrow>
          (\<exists>x \<in> set (c # cs). x \<in> fmdom' h \<and> (x, a) \<in> ?E\<^sup>*)"
      proof (intro allI impI, elim conjE)
        fix a assume a: "a \<in> dirtySet ?h3" "a \<notin> dirtySet h"
        consider "a \<notin> dirtySet ?h2" | "a \<in> dirtySet ?h2" "a \<notin> dirtySet ?h1" | "a = c"
          using a(2) d1 by blast
        then show "\<exists>x \<in> set (c # cs). x \<in> fmdom' h \<and> (x, a) \<in> ?E\<^sup>*"
        proof cases
          case 1
          then obtain x where "x \<in> set cs" "x \<in> fmdom' h" "(x, a) \<in> ?E\<^sup>*"
            using s2 a(1) E2 dom2 unfolding swept_def by metis
          then show ?thesis by auto
        next
          case 2
          then obtain x where x: "x \<in> set (m_children child)" "x \<in> fmdom' h" "(x, a) \<in> ?E\<^sup>*"
            using s1 E1 dom1 unfolding swept_def by metis
          then have "(c, x) \<in> ?E" using ce by simp
          then have "(c, a) \<in> ?E\<^sup>*" using x(3) by (rule converse_rtrancl_into_rtrancl)
          then show ?thesis using cdom by auto
        next
          case 3
          then show ?thesis using cdom by auto
        qed
      qed
      show ?thesis
        unfolding e swept_def using g1 g2 g3 by blast
    qed
  qed
qed

lemma InvalidateChildren_closed:
  assumes "\<forall>(a, c) \<in> childEdges h. a \<in> dirtySet h \<longrightarrow> c \<in> dirtySet h \<or> c \<in> set cs"
  shows "\<forall>(a, c) \<in> childEdges h.
           a \<in> dirtySet (InvalidateChildren h cs) \<longrightarrow> c \<in> dirtySet (InvalidateChildren h cs)"
proof (intro ballI, clarify)
  fix a c
  assume e: "(a, c) \<in> childEdges h" and a: "a \<in> dirtySet (InvalidateChildren h cs)"
  have cdom: "c \<in> fmdom' h" using e by (auto simp: childEdges_def)
  have s: "swept h cs (InvalidateChildren h cs)" by (rule InvalidateChildren_swept)
  show "c \<in> dirtySet (InvalidateChildren h cs)"
  proof (cases "a \<in> dirtySet h")
    case True
    then have "c \<in> dirtySet h \<or> c \<in> set cs" using assms e by blast
    then show ?thesis
      using InvalidateChildren_dirty_mono [of h cs] s cdom unfolding swept_def by blast
  next
    case False
    then show ?thesis using s a e unfolding swept_def by blast
  qed
qed

lemma InvalidateChildren_dirtySet:
  assumes "\<forall>(a, c) \<in> childEdges h. a \<in> dirtySet h \<longrightarrow> c \<in> dirtySet h \<or> c \<in> set cs"
  shows "dirtySet (InvalidateChildren h cs) =
           dirtySet h \<union> {x. \<exists>c \<in> set cs. c \<in> fmdom' h \<and> (c, x) \<in> (childEdges h)\<^sup>*}"
proof -
  let ?D = "dirtySet (InvalidateChildren h cs)"
  have s: "swept h cs (InvalidateChildren h cs)" by (rule InvalidateChildren_swept)
  have closed: "\<And>a c. (a, c) \<in> childEdges h \<Longrightarrow> a \<in> ?D \<Longrightarrow> c \<in> ?D"
    using InvalidateChildren_closed [OF assms] by blast
  have reach: "x \<in> ?D" if "c \<in> ?D" "(c, x) \<in> (childEdges h)\<^sup>*" for c x
    using that(2) that(1) by (induction rule: rtrancl_induct) (auto intro: closed)
  show ?thesis
  proof (intro equalityI subsetI)
    fix x assume "x \<in> ?D"
    then show "x \<in> dirtySet h \<union> {x. \<exists>c \<in> set cs. c \<in> fmdom' h \<and> (c, x) \<in> (childEdges h)\<^sup>*}"
      using s unfolding swept_def by blast
  next
    fix x assume "x \<in> dirtySet h \<union> {x. \<exists>c \<in> set cs. c \<in> fmdom' h \<and> (c, x) \<in> (childEdges h)\<^sup>*}"
    then consider "x \<in> dirtySet h"
      | c where "c \<in> set cs" "c \<in> fmdom' h" "(c, x) \<in> (childEdges h)\<^sup>*"
      by blast
    then show "x \<in> ?D"
    proof cases
      case 1
      then show ?thesis using InvalidateChildren_dirty_mono [of h cs] by blast
    next
      case 2
      then have "c \<in> ?D" using s unfolding swept_def by blast
      then show ?thesis using 2(3) by (rule reach)
    qed
  qed
qed

lemma descendants_children:
  assumes "fmlookup h a = Some n"
  shows "descendants h a =
     {x. \<exists>c \<in> set (m_children n). c \<in> fmdom' h \<and> (c, x) \<in> (childEdges h)\<^sup>*}"
proof -
  have ce: "\<And>x. (a, x) \<in> childEdges h \<longleftrightarrow> x \<in> set (m_children n) \<and> x \<in> fmdom' h"
    using assms by (auto simp: childEdges_def)
  show ?thesis
    unfolding descendants_def trancl_unfold_left using ce by auto
qed

lemma markEach_absorb: "T \<subseteq> dirtySet h \<Longrightarrow> markEach (S \<union> T) h = markEach S h"
proof (rule fmap_ext)
  fix x assume t: "T \<subseteq> dirtySet h"
  show "fmlookup (markEach (S \<union> T) h) x = fmlookup (markEach S h) x"
  proof (cases "fmlookup h x")
    case None
    then show ?thesis by (simp add: lookup_markEach)
  next
    case (Some n)
    then have "x \<in> T \<Longrightarrow> m_isDirty n"
      using t by (auto simp: dirtySet_def)
    then show ?thesis
      using Some by (auto simp: lookup_markEach)
  qed
qed

lemma downClosed_markEach:
  assumes "\<forall>(a, c) \<in> childEdges h. a \<in> dirtySet (markEach S h) \<longrightarrow> c \<in> dirtySet (markEach S h)"
  shows "downClosed (markEach S h)"
  using assms unfolding downClosed_def childEdges_markEach .

lemma MarkDirty_dirty:
  "fmlookup h a = Some n \<Longrightarrow> m_isDirty n \<Longrightarrow> MarkDirty a h = h"
  by (simp add: MarkDirty_def)

lemma descendants_dirty:
  assumes "downClosed h" and "a \<in> dirtySet h"
  shows "descendants h a \<subseteq> dirtySet h"
proof
  fix x assume "x \<in> descendants h a"
  then have "(a, x) \<in> (childEdges h)\<^sup>+" by (simp add: descendants_def)
  then show "x \<in> dirtySet h"
    using assms unfolding downClosed_def
    by (induction rule: trancl_induct) blast+
qed

lemma MarkDirty_downClosed:
  assumes dc: "downClosed h" and a: "a \<in> fmdom' h"
  shows "MarkDirty a h = markEach ({a} \<union> descendants h a) h \<and> downClosed (MarkDirty a h)"
proof -
  obtain n where n: "fmlookup h a = Some n"
    using a by (auto simp: fmlookup_dom'_iff)
  show ?thesis
  proof (cases "m_isDirty n")
    case True
    have ad: "a \<in> dirtySet h" using n True by (auto simp: dirtySet_def)
    have "{a} \<union> descendants h a \<subseteq> dirtySet h"
      using descendants_dirty [OF dc ad] ad by blast
    then have "markEach ({} \<union> ({a} \<union> descendants h a)) h = markEach {} h"
      by (rule markEach_absorb)
    then have "MarkDirty a h = markEach ({a} \<union> descendants h a) h"
      using MarkDirty_dirty [OF n True] by (simp add: markEach_empty)
    moreover have "downClosed (MarkDirty a h)"
      using MarkDirty_dirty [OF n True] dc by simp
    ultimately show ?thesis ..
  next
    case False
    let ?h1 = "fmupd a (n\<lparr>m_isDirty := True\<rparr>) h"
    let ?cs = "m_children n"
    have h1: "?h1 = markEach {a} h" by (rule fmupd_markEach [OF n])
    have md: "MarkDirty a h = InvalidateChildren ?h1 ?cs"
      using n False by (simp add: MarkDirty_def)
    have E1: "childEdges ?h1 = childEdges h"
      unfolding h1 by (rule childEdges_markEach)
    have dom1: "fmdom' ?h1 = fmdom' h"
      unfolding h1 by (rule fmdom'_markEach)
    have d1: "dirtySet ?h1 = insert a (dirtySet h)"
      unfolding h1 dirtySet_markEach using a by auto
    have ce: "\<And>x. (a, x) \<in> childEdges h \<Longrightarrow> x \<in> set ?cs"
      using n by (auto simp: childEdges_def)
    have pre: "\<forall>(x, c) \<in> childEdges ?h1. x \<in> dirtySet ?h1 \<longrightarrow> c \<in> dirtySet ?h1 \<or> c \<in> set ?cs"
      unfolding E1 d1 using dc ce unfolding downClosed_def by blast
    have D: "dirtySet (InvalidateChildren ?h1 ?cs) = insert a (dirtySet h) \<union> descendants h a"
      using InvalidateChildren_dirtySet [OF pre] descendants_children [OF n]
      unfolding E1 dom1 d1 by simp
    have "InvalidateChildren ?h1 ?cs = markEach (dirtySet (InvalidateChildren ?h1 ?cs)) ?h1"
      by (rule InvalidateChildren_markEach)
    also have "\<dots> = markEach (insert a (dirtySet h) \<union> descendants h a) (markEach {a} h)"
      unfolding D by (simp only: h1)
    also have "\<dots> = markEach (({a} \<union> descendants h a) \<union> dirtySet h) h"
      unfolding markEach_markEach by (rule arg_cong [where f = "\<lambda>S. markEach S h"]) blast
    also have "\<dots> = markEach ({a} \<union> descendants h a) h"
      by (rule markEach_absorb) simp
    finally have eq: "MarkDirty a h = markEach ({a} \<union> descendants h a) h"
      unfolding md .
    have "\<forall>(x, c) \<in> childEdges ?h1.
           x \<in> dirtySet (InvalidateChildren ?h1 ?cs) \<longrightarrow> c \<in> dirtySet (InvalidateChildren ?h1 ?cs)"
      by (rule InvalidateChildren_closed [OF pre])
    then have "downClosed (MarkDirty a h)"
      unfolding md downClosed_def InvalidateChildren_childEdges .
    with eq show ?thesis ..
  qed
qed

section \<open>The event ledger\<close>

lemma CountRecent_filter:
  "CountRecent now hp w = length (filter (\<lambda>ev. IsWithinWindow now ev w) (m_events hp))"
proof -
  have "foldl (\<lambda>count ev. if IsWithinWindow now ev w then count + 1 else count) k es
          = k + length (filter (\<lambda>ev. IsWithinWindow now ev w) es)" for k :: nat and es
    by (induction es arbitrary: k) simp_all
  then show ?thesis by (simp add: CountRecent_def)
qed

lemma SumRecent_filter:
  "SumRecent now hp w = (\<Sum>ev\<leftarrow>filter (\<lambda>ev. IsWithinWindow now ev w) (m_events hp). ev_value ev)"
proof -
  have "foldl (\<lambda>sum ev. if IsWithinWindow now ev w then sum + ev_value ev else sum) k es
          = k + (\<Sum>ev\<leftarrow>filter (\<lambda>ev. IsWithinWindow now ev w) es. ev_value ev)" for k :: real and es
    by (induction es arbitrary: k) simp_all
  then show ?thesis by (simp add: SumRecent_def)
qed

lemma popExcess_drop: "popExcess es = drop (length es - MAX_EVENTS) es"
proof (induction es rule: popExcess.induct)
  case (1 es)
  show ?case
  proof (cases "length es > MAX_EVENTS")
    case True
    then have "es \<noteq> []" by auto
    then obtain x xs where es: "es = x # xs" by (cases es) auto
    have "popExcess es = popExcess (tl es)"
      using True by (subst popExcess.simps) simp
    also have "\<dots> = drop (length (tl es) - MAX_EVENTS) (tl es)"
      using 1 True by simp
    also have "\<dots> = drop (length es - MAX_EVENTS) es"
      using True es by (simp add: Suc_diff_le)
    finally show ?thesis .
  next
    case False
    then show ?thesis by (subst popExcess.simps) simp
  qed
qed

lemma MarkDirty_markEach_ex: "\<exists>S. MarkDirty a h = markEach S h"
proof (cases "fmlookup h a")
  case None
  then have "MarkDirty a h = markEach {} h"
    by (simp add: MarkDirty_def markEach_empty)
  then show ?thesis by blast
next
  case (Some n)
  show ?thesis
  proof (cases "m_isDirty n")
    case True
    then have "MarkDirty a h = markEach {} h"
      using Some by (simp add: MarkDirty_def markEach_empty)
    then show ?thesis by blast
  next
    case False
    obtain S where "InvalidateChildren (fmupd a (n\<lparr>m_isDirty := True\<rparr>) h) (m_children n)
        = markEach S (fmupd a (n\<lparr>m_isDirty := True\<rparr>) h)"
      using InvalidateChildren_markEach_ex by blast
    then have "MarkDirty a h = markEach ({a} \<union> S) h"
      using Some False by (simp add: MarkDirty_def fmupd_markEach [OF Some] markEach_markEach)
    then show ?thesis by blast
  qed
qed

lemma ledgerAt_markEach: "ledgerAt (markEach S h) a = ledgerAt h a"
  by (cases "fmlookup h a") (simp_all add: ledgerAt_def lookup_markEach)

lemma ledgerAt_MarkDirty: "ledgerAt (MarkDirty b h) a = ledgerAt h a"
  using MarkDirty_markEach_ex [of b h] ledgerAt_markEach by metis

lemma eventsAt_markEach: "eventsAt (markEach S h) a = eventsAt h a"
  by (simp add: eventsAt_def ledgerAt_markEach)

lemma eventsAt_MarkDirty: "eventsAt (MarkDirty b h) a = eventsAt h a"
  using MarkDirty_markEach_ex [of b h] eventsAt_markEach by metis

lemma isHistoryObject_markEach: "isHistoryObject (markEach S h) a = isHistoryObject h a"
  by (simp add: isHistoryObject_def ledgerAt_markEach)

lemma isHistoryObject_MarkDirty: "isHistoryObject (MarkDirty b h) a = isHistoryObject h a"
  using MarkDirty_markEach_ex [of b h] isHistoryObject_markEach by metis

lemma RecordEventAt_events:
  assumes "isHistoryObject h a"
  shows "eventsAt (RecordEventAt a v t ty h) a
           = eventsAt h a @ [\<lparr> ev_value = v, timestamp = t, eventType = ty \<rparr>]
         \<and> isHistoryObject (RecordEventAt a v t ty h) a"
proof -
  obtain n hp where n: "fmlookup h a = Some n" "m_history n = Some hp"
    using assms by (auto simp: isHistoryObject_def ledgerAt_def split: option.splits)
  let ?es = "m_events hp @ [\<lparr> ev_value = v, timestamp = t, eventType = ty \<rparr>]"
  let ?h1 = "fmupd a (n\<lparr>m_history := Some (hp\<lparr>m_events := ?es\<rparr>)\<rparr>) h"
  have r: "RecordEventAt a v t ty h = MarkDirty a ?h1"
    using n by (simp add: RecordEventAt_def)
  have "eventsAt ?h1 a = ?es" "isHistoryObject ?h1 a" "eventsAt h a = m_events hp"
    using n by (simp_all add: eventsAt_def isHistoryObject_def ledgerAt_def)
  then show ?thesis
    unfolding r eventsAt_MarkDirty isHistoryObject_MarkDirty by simp
qed

lemma RecordEvent_events:
  assumes "isHistoryObject h a"
  shows "eventsAt (RecordEvent a now v ty h) a
           = popExcess (eventsAt h a @ [\<lparr> ev_value = v, timestamp = now, eventType = ty \<rparr>])
         \<and> isHistoryObject (RecordEvent a now v ty h) a"
proof -
  obtain n hp where n: "fmlookup h a = Some n" "m_history n = Some hp"
    using assms by (auto simp: isHistoryObject_def ledgerAt_def split: option.splits)
  let ?es = "popExcess (m_events hp @ [\<lparr> ev_value = v, timestamp = now, eventType = ty \<rparr>])"
  let ?h1 = "fmupd a (n\<lparr>m_history := Some (hp\<lparr>m_events := ?es\<rparr>)\<rparr>) h"
  have r: "RecordEvent a now v ty h = MarkDirty a ?h1"
    using n by (simp add: RecordEvent_def)
  have "eventsAt ?h1 a = ?es" "isHistoryObject ?h1 a" "eventsAt h a = m_events hp"
    using n by (simp_all add: eventsAt_def isHistoryObject_def ledgerAt_def)
  then show ?thesis
    unfolding r eventsAt_MarkDirty isHistoryObject_MarkDirty by simp
qed

lemma RecordEventAt_replicate:
  assumes "isHistoryObject h a"
  shows "eventsAt (runRecordOps a (replicate k (DoRecordEventAt v t ty)) h) a
           = eventsAt h a @ replicate k \<lparr> ev_value = v, timestamp = t, eventType = ty \<rparr>
         \<and> isHistoryObject (runRecordOps a (replicate k (DoRecordEventAt v t ty)) h) a"
  using assms
proof (induction k arbitrary: h)
  case 0
  then show ?case by (simp add: runRecordOps_def)
next
  case (Suc k)
  have "runRecordOps a (replicate (Suc k) (DoRecordEventAt v t ty)) h
      = runRecordOps a (replicate k (DoRecordEventAt v t ty)) (RecordEventAt a v t ty h)"
    by (simp add: runRecordOps_def)
  then show ?case
    using Suc.IH [of "RecordEventAt a v t ty h"] RecordEventAt_events [OF Suc.prems, of v t ty]
    by (simp add: replicate_app_Cons_same)
qed

lemma exLedger_history: "isHistoryObject exLedger 0" "eventsAt exLedger 0 = []"
  by (simp_all add: isHistoryObject_def exLedger_def new_HistoryStatNode_def new_StatNode_def
      eventsAt_def ledgerAt_def)



lemma RecordEvent_bounded:
  assumes "isHistoryObject h a"
  shows "length (eventsAt (RecordEvent a now v ty h) a) \<le> MAX_EVENTS"
  using RecordEvent_events [OF assms, of now v ty] by (simp add: popExcess_drop)

text \<open>
  Claim C7. For every sequence of recording calls the number of retained events stays at
  most \<^verbatim>\<open>MAX_EVENTS\<close> = 1000, and \<^verbatim>\<open>CountRecent\<close> over any window returns at most 1000.
  The code at the failing input: 1001 calls of \<^verbatim>\<open>RecordEventAt\<close> on a fresh
  \<^verbatim>\<open>HistoryStatNode\<close> leave 1001 events, and \<^verbatim>\<open>CountRecent\<close> over a window of 1000000
  seconds returns 1001.
\<close>

theorem C7_RecordEventAt_keeps_1001:
  "length (eventsAt (runRecordOps 0 (replicate 1001 (DoRecordEventAt 1 0 [])) (exLedger :: unit heap)) 0)
     = 1001
   \<and> map_option (\<lambda>hp. CountRecent 0 hp 1000000)
        (ledgerAt (runRecordOps 0 (replicate 1001 (DoRecordEventAt 1 0 [])) (exLedger :: unit heap)) 0)
     = Some 1001
   \<and> MAX_EVENTS = 1000"
proof -
  let ?h = "runRecordOps 0 (replicate 1001 (DoRecordEventAt 1 0 [])) (exLedger :: unit heap)"
  have "isHistoryObject (exLedger :: unit heap) 0"
    by (rule exLedger_history(1))
  from RecordEventAt_replicate [OF this, of 1001 1 0 "[]"]
  have e: "eventsAt ?h 0 = replicate 1001 \<lparr> ev_value = 1, timestamp = 0, eventType = [] \<rparr>"
    and i: "isHistoryObject ?h 0"
    by (simp_all add: exLedger_history(2))
  obtain hp where hp: "ledgerAt ?h 0 = Some hp"
    using i by (auto simp: isHistoryObject_def)
  have ev: "m_events hp = replicate 1001 \<lparr> ev_value = 1, timestamp = 0, eventType = [] \<rparr>"
    using e hp by (simp add: eventsAt_def)
  have "CountRecent 0 hp 1000000 = 1001"
    unfolding CountRecent_filter ev by (simp add: IsWithinWindow_def GetAge_def)
  then show ?thesis
    using e hp by (simp add: MAX_EVENTS_def)
qed




section \<open>Pull: what GetValue returns\<close>

lemma pullConditional_filter:
  "pullConditional g e h cps = pullParents g h (map cp_node (filter (predicateTrue e) cps))"
  by (induction cps arbitrary: h) (simp_all add: predicateTrue_def split: option.splits)

lemmas ex_defs = exBase_def exConditional_def exNullCondition_def new_StatNode_def
  AddParent_def AddConditionalParent_def modify_def Let_def

lemma dropNull_fields:
  "m_baseValue (dropNull n) = m_baseValue n"
  "m_cachedValue (dropNull n) = m_cachedValue n"
  "m_type (dropNull n) = m_type n"
  "m_isDirty (dropNull n) = m_isDirty n"
  by (simp_all add: dropNull_def)

lemma pullParents_append:
  "pullParents g h (ps @ qs) =
     (case pullParents g h ps of
        None \<Rightarrow> None
      | Some (vs1, h1) \<Rightarrow>
          (case pullParents g h1 qs of
             None \<Rightarrow> None
           | Some (vs2, h2) \<Rightarrow> Some (vs1 @ vs2, h2)))"
  by (induction ps arbitrary: h) (auto split: option.splits)

lemma foldl_add_sum_list: "foldl (+) k vs = k + sum_list vs" for k :: real
  by (induction vs arbitrary: k) simp_all

lemma GetValue_dirty:
  assumes "fmlookup h a = Some n" and "m_type n = Derived" and "m_isDirty n"
  shows "GetValue (Suc k) e now h a =
     (case pullParents (GetValue k e now) h (contributors e n) of
        None \<Rightarrow> None
      | Some (vs, h2) \<Rightarrow>
          Some (calcOf now n vs,
                modify a (\<lambda>m. m\<lparr>m_cachedValue := calcOf now n vs, m_isDirty := False\<rparr>) h2))"
  using assms
  by (auto simp: contributors_def pullParents_append pullConditional_filter calcOf_def
      foldl_add_sum_list Let_def split: option.splits)

lemma GetValue_clean:
  assumes "fmlookup h a = Some n" and "m_type n = Derived" and "\<not> m_isDirty n"
  shows "GetValue (Suc k) e now h a = Some (m_cachedValue n, h)"
  using assms by simp

lemma GetValue_source:
  assumes "fmlookup h a = Some n" and "m_type n \<noteq> Derived"
  shows "GetValue (Suc k) e now h a = Some (m_baseValue n, h)"
  using assms by (cases "m_type n") simp_all

lemma GetValue_None:
  assumes "fmlookup h a = None"
  shows "GetValue k e now h a = None"
  using assms by (cases k) simp_all

declare GetValue.simps [simp del]

lemma pullParents_commute:
  assumes g: "\<And>h p. g (fmmap F h) p = map_option (apsnd (fmmap F)) (g h p)"
  shows "pullParents g (fmmap F h) ps = map_option (apsnd (fmmap F)) (pullParents g h ps)"
proof (induction ps arbitrary: h)
  case Nil
  show ?case by simp
next
  case (Cons p ps)
  show ?case
  proof (cases "fmlookup h p")
    case None
    then show ?thesis using Cons.IH by simp
  next
    case (Some n)
    show ?thesis
    proof (cases "g h p")
      case None
      then show ?thesis using Some g [of h p] by simp
    next
      case (Some r)
      obtain v h1 where r: "r = (v, h1)" by (cases r)
      have "g (fmmap F h) p = Some (v, fmmap F h1)"
        using g [of h p] Some r by simp
      then show ?thesis
        using \<open>fmlookup h p = Some n\<close> Some r Cons.IH [of h1]
        by (cases "pullParents g h1 ps") auto
    qed
  qed
qed

lemma contributors_dropNull: "contributors e (dropNull n) = contributors e n"
proof -
  have "filter (predicateTrue e) (filter (\<lambda>cp. cp_condition cp \<noteq> None) cps)
          = filter (predicateTrue e) cps" for cps
    by (induction cps) (auto simp: predicateTrue_def)
  then show ?thesis
    by (simp add: contributors_def dropNull_def)
qed

lemma calcOf_dropNull: "calcOf now (dropNull n) vs = calcOf now n vs"
  by (simp add: calcOf_def dropNull_def applyCalc_def split: option.splits CalculationFunc.splits)

lemma modify_dropNull:
  "modify a (\<lambda>m. m\<lparr>m_cachedValue := v, m_isDirty := False\<rparr>) (fmmap dropNull h)
     = fmmap dropNull (modify a (\<lambda>m. m\<lparr>m_cachedValue := v, m_isDirty := False\<rparr>) h)"
proof (rule fmap_ext)
  fix x
  show "fmlookup (modify a (\<lambda>m. m\<lparr>m_cachedValue := v, m_isDirty := False\<rparr>) (fmmap dropNull h)) x
      = fmlookup (fmmap dropNull (modify a (\<lambda>m. m\<lparr>m_cachedValue := v, m_isDirty := False\<rparr>) h)) x"
    by (cases "fmlookup h a") (auto simp: modify_def dropNull_def)
qed

lemma GetValue_dropNull:
  "GetValue k e now (fmmap dropNull h) a = map_option (apsnd (fmmap dropNull)) (GetValue k e now h a)"
proof (induction k arbitrary: h a)
  case 0
  show ?case by (simp add: GetValue.simps)
next
  case (Suc k)
  show ?case
  proof (cases "fmlookup h a")
    case None
    then show ?thesis by (simp add: GetValue_None)
  next
    case (Some n)
    have l: "fmlookup (fmmap dropNull h) a = Some (dropNull n)"
      using Some by simp
    consider "m_type n \<noteq> Derived" | "m_type n = Derived" "\<not> m_isDirty n"
      | "m_type n = Derived" "m_isDirty n" by blast
    then show ?thesis
    proof cases
      case 1
      then have t: "m_type (dropNull n) \<noteq> Derived" by (simp add: dropNull_fields)
      show ?thesis
        unfolding GetValue_source [OF l t] GetValue_source [OF Some 1]
        by (simp add: dropNull_fields)
    next
      case 2
      then have t: "m_type (dropNull n) = Derived" "\<not> m_isDirty (dropNull n)"
        by (simp_all add: dropNull_fields)
      show ?thesis
        unfolding GetValue_clean [OF l t] GetValue_clean [OF Some 2]
        by (simp add: dropNull_fields)
    next
      case 3
      then have d: "m_type (dropNull n) = Derived" "m_isDirty (dropNull n)"
        by (simp_all add: dropNull_fields)
      have p: "pullParents (GetValue k e now) (fmmap dropNull h) ps
          = map_option (apsnd (fmmap dropNull)) (pullParents (GetValue k e now) h ps)" for ps
        by (rule pullParents_commute) (rule Suc.IH)
      show ?thesis
        unfolding GetValue_dirty [OF l d] GetValue_dirty [OF Some 3]
          contributors_dropNull calcOf_dropNull p
        by (cases "pullParents (GetValue k e now) h (contributors e n)")
           (auto simp: modify_dropNull)
    qed
  qed
qed

lemma set_map_filter: "set (List.map_filter f xs) = {y. \<exists>x \<in> set xs. f x = Some y}"
  by (induction xs) (auto simp: List.map_filter_simps split: option.splits)

lemma GetEdgeStates_null_active:
  assumes "cp \<in> set (m_conditionalParents n)" and "cp_condition cp = None"
    and "fmlookup h (cp_node cp) = Some parent"
  shows "\<lparr> fromId = m_id parent, toId = m_id n, isActive = True, isConditional = True,
           condition = conditionDesc cp \<rparr> \<in> set (GetEdgeStates e h n)"
  using assms
  unfolding GetEdgeStates_def set_append set_map_filter
  by (intro UnI2) (auto intro!: bexI [of _ cp])

lemma AddConditionalParent_null:
  assumes "fmlookup h a = Some n" and "fmlookup h parent = Some pn" and "a \<noteq> parent"
  shows "\<exists>n'. fmlookup (AddConditionalParent a parent None desc h) a = Some n'
      \<and> m_conditionalParents n' = m_conditionalParents n @
           [\<lparr> cp_node = parent, cp_condition = None, conditionDesc = desc, lastActive = True \<rparr>]"
  using assms by (simp add: AddConditionalParent_def modify_def Let_def)

lemma cachedFrom_refl: "cachedFrom e now h h"
  unfolding cachedFrom_def by (simp add: option.rel_refl)

lemma mem_fmdom'_None: "b \<in> fmdom' h \<longleftrightarrow> fmlookup h b \<noteq> None"
  by (auto simp: fmlookup_dom'_iff)

lemma rel_option_None_iff: "rel_option R x y \<Longrightarrow> y = None \<longleftrightarrow> x = None"
  by (cases x; cases y) simp_all

lemma cachedFrom_rel:
  "cachedFrom e now h h' \<Longrightarrow> rel_option
        (\<lambda>n n'. n' = n \<or>
           (m_type n = Derived \<and> m_isDirty n \<and>
            (\<exists>w. pulled e now h b w \<and> n' = n\<lparr>m_cachedValue := w, m_isDirty := False\<rparr>)))
        (fmlookup h b) (fmlookup h' b)"
  unfolding cachedFrom_def by (rule spec)

lemma cachedFrom_None:
  "cachedFrom e now h h' \<Longrightarrow> fmlookup h' b = None \<longleftrightarrow> fmlookup h b = None"
  by (rule rel_option_None_iff [OF cachedFrom_rel])

lemma cachedFrom_dom:
  assumes "cachedFrom e now h h'"
  shows "fmdom' h' = fmdom' h"
proof -
  have "b \<in> fmdom' h' \<longleftrightarrow> b \<in> fmdom' h" for b
    unfolding mem_fmdom'_None cachedFrom_None [OF assms] ..
  then show ?thesis by blast
qed

lemma cachedFrom_Some:
  assumes "cachedFrom e now h h'" and "fmlookup h' b = Some n'"
  obtains n where "fmlookup h b = Some n"
    and "n' = n \<or> (m_type n = Derived \<and> m_isDirty n \<and>
            (\<exists>w. pulled e now h b w \<and> n' = n\<lparr>m_cachedValue := w, m_isDirty := False\<rparr>))"
proof -
  have "rel_option
        (\<lambda>n n'. n' = n \<or>
           (m_type n = Derived \<and> m_isDirty n \<and>
            (\<exists>w. pulled e now h b w \<and> n' = n\<lparr>m_cachedValue := w, m_isDirty := False\<rparr>)))
        (fmlookup h b) (Some n')"
    using cachedFrom_rel [OF assms(1), of b] assms(2) by simp
  then show ?thesis
    using that by (cases "fmlookup h b") simp_all
qed

lemma pulled_back:
  assumes c: "cachedFrom e now h h1"
  shows "pulled e now h1 a v \<Longrightarrow> pulled e now h a v"
proof (induction rule: pulled.induct)
  case (source a n1)
  obtain n where n: "fmlookup h a = Some n"
    and r: "n1 = n \<or> (m_type n = Derived \<and> m_isDirty n \<and>
            (\<exists>w. pulled e now h a w \<and> n1 = n\<lparr>m_cachedValue := w, m_isDirty := False\<rparr>))"
    using cachedFrom_Some [OF c source(1)] by blast
  from r source(2) have "n1 = n" by auto
  then show ?case using pulled.source [OF n] source(2) by simp
next
  case (cached a n1)
  obtain n where n: "fmlookup h a = Some n"
    and r: "n1 = n \<or> (m_type n = Derived \<and> m_isDirty n \<and>
            (\<exists>w. pulled e now h a w \<and> n1 = n\<lparr>m_cachedValue := w, m_isDirty := False\<rparr>))"
    using cachedFrom_Some [OF c cached(1)] by blast
  from r show ?case
  proof
    assume "n1 = n"
    then show ?thesis using pulled.cached [OF n] cached(2,3) by simp
  next
    assume "m_type n = Derived \<and> m_isDirty n \<and>
            (\<exists>w. pulled e now h a w \<and> n1 = n\<lparr>m_cachedValue := w, m_isDirty := False\<rparr>)"
    then show ?thesis by auto
  qed
next
  case (recomputed a n1 vs)
  obtain n where n: "fmlookup h a = Some n"
    and r: "n1 = n \<or> (m_type n = Derived \<and> m_isDirty n \<and>
            (\<exists>w. pulled e now h a w \<and> n1 = n\<lparr>m_cachedValue := w, m_isDirty := False\<rparr>))"
    using cachedFrom_Some [OF c recomputed(1)] by blast
  from r recomputed(3) have e: "n1 = n" by auto
  have "inputs e h1 n1 = inputs e h n"
    unfolding inputs_def e cachedFrom_dom [OF c] ..
  then have "list_all2 (pulled e now h) (inputs e h n) vs"
    using recomputed(4) by (simp add: list_all2_conv_all_nth)
  then show ?case
    using pulled.recomputed [OF n] recomputed(2,3) e by simp
qed

lemma cachedFrom_trans:
  assumes a: "cachedFrom e now h h1" and b: "cachedFrom e now h1 h2"
  shows "cachedFrom e now h h2"
  unfolding cachedFrom_def
proof
  fix x
  let ?R = "\<lambda>h x n n'. n' = n \<or>
           (m_type n = Derived \<and> m_isDirty n \<and>
            (\<exists>w. pulled e now h x w \<and> n' = n\<lparr>m_cachedValue := w, m_isDirty := False\<rparr>))"
  show "rel_option (?R h x) (fmlookup h x) (fmlookup h2 x)"
  proof (cases "fmlookup h2 x")
    case None
    then have "fmlookup h x = None"
      using cachedFrom_None [OF a] cachedFrom_None [OF b] by simp
    then show ?thesis using None by simp
  next
    case (Some n2)
    obtain n1 where n1: "fmlookup h1 x = Some n1" and r1: "?R h1 x n1 n2"
      using cachedFrom_Some [OF b Some] by blast
    obtain n where n: "fmlookup h x = Some n" and r: "?R h x n n1"
      using cachedFrom_Some [OF a n1] by blast
    have "?R h x n n2"
    proof (cases "n2 = n1")
      case True
      then show ?thesis using r by simp
    next
      case False
      then obtain w where w: "m_type n1 = Derived" "m_isDirty n1" "pulled e now h1 x w"
        "n2 = n1\<lparr>m_cachedValue := w, m_isDirty := False\<rparr>"
        using r1 by blast
      have "n1 = n" using r w(2) by auto
      moreover have "pulled e now h x w" using pulled_back [OF a w(3)] .
      ultimately show ?thesis using w by blast
    qed
    then show ?thesis using n Some by simp
  qed
qed

lemma pullParents_pulled:
  assumes g: "\<And>h p v h'. g h p = Some (v, h') \<Longrightarrow> pulled e now h p v \<and> cachedFrom e now h h'"
  shows "pullParents g h1 ps = Some (vs, h2) \<Longrightarrow> cachedFrom e now h h1
     \<Longrightarrow> list_all2 (pulled e now h) (filter (\<lambda>p. p \<in> fmdom' h) ps) vs \<and> cachedFrom e now h h2"
proof (induction ps arbitrary: h1 vs)
  case Nil
  then show ?case by simp
next
  case (Cons p ps)
  show ?case
  proof (cases "fmlookup h1 p")
    case None
    then have "p \<notin> fmdom' h"
      unfolding mem_fmdom'_None using cachedFrom_None [OF Cons.prems(2), of p] by simp
    then show ?thesis
      using Cons.IH [of h1 vs] Cons.prems None by simp
  next
    case (Some n)
    then have pd: "p \<in> fmdom' h"
      unfolding mem_fmdom'_None using cachedFrom_None [OF Cons.prems(2), of p] by simp
    obtain v h1' where gp: "g h1 p = Some (v, h1')"
      using Cons.prems(1) Some by (cases "g h1 p") auto
    obtain vs' where rest: "pullParents g h1' ps = Some (vs', h2)" and vs: "vs = v # vs'"
      using Cons.prems(1) Some gp by (cases "pullParents g h1' ps") auto
    have p1: "pulled e now h1 p v" and c1: "cachedFrom e now h1 h1'"
      using g [OF gp] by simp_all
    have "pulled e now h p v"
      by (rule pulled_back [OF Cons.prems(2) p1])
    moreover have "cachedFrom e now h h1'"
      by (rule cachedFrom_trans [OF Cons.prems(2) c1])
    ultimately show ?thesis
      using Cons.IH [OF rest] pd vs by simp
  qed
qed

lemma modify_Some:
  "fmlookup h a = Some n \<Longrightarrow> modify a f h = fmupd a (f n) h"
  by (simp add: modify_def)

theorem GetValue_pulled:
  "GetValue k e now h a = Some (v, h') \<Longrightarrow> pulled e now h a v \<and> cachedFrom e now h h'"
proof (induction k arbitrary: h a v h')
  case 0
  then show ?case by (simp add: GetValue.simps)
next
  case (Suc k)
  obtain n where n: "fmlookup h a = Some n"
    using Suc.prems GetValue_None [of h a "Suc k" e now] by (cases "fmlookup h a") auto
  consider "m_type n \<noteq> Derived" | "m_type n = Derived" "\<not> m_isDirty n"
    | "m_type n = Derived" "m_isDirty n" by blast
  then show ?case
  proof cases
    case 1
    then show ?thesis
      using Suc.prems GetValue_source [OF n 1, of k e now] pulled.source [OF n 1]
      by (simp add: cachedFrom_refl)
  next
    case 2
    then show ?thesis
      using Suc.prems GetValue_clean [OF n 2, of k e now] pulled.cached [OF n 2]
      by (simp add: cachedFrom_refl)
  next
    case 3
    obtain vs h2 where pp: "pullParents (GetValue k e now) h (contributors e n) = Some (vs, h2)"
      and v: "v = calcOf now n vs"
      and h': "h' = modify a (\<lambda>m. m\<lparr>m_cachedValue := calcOf now n vs, m_isDirty := False\<rparr>) h2"
      using Suc.prems unfolding GetValue_dirty [OF n 3]
      by (cases "pullParents (GetValue k e now) h (contributors e n)") auto
    have l: "list_all2 (pulled e now h) (inputs e h n) vs" and c2: "cachedFrom e now h h2"
      using pullParents_pulled [of "GetValue k e now" e now h "contributors e n" vs h2 h,
          OF Suc.IH pp cachedFrom_refl]
      unfolding inputs_def by simp_all
    have pv: "pulled e now h a v"
      unfolding v by (rule pulled.recomputed [OF n 3 l])
    obtain n2 where n2: "fmlookup h2 a = Some n2"
      using cachedFrom_None [OF c2, of a] n by (cases "fmlookup h2 a") auto
    obtain m where m: "fmlookup h a = Some m"
      and r: "n2 = m \<or> (m_type m = Derived \<and> m_isDirty m \<and>
            (\<exists>w. pulled e now h a w \<and> n2 = m\<lparr>m_cachedValue := w, m_isDirty := False\<rparr>))"
      using cachedFrom_Some [OF c2 n2] by blast
    have mn: "m = n" using m n by simp
    have n2': "n2\<lparr>m_cachedValue := v, m_isDirty := False\<rparr> = n\<lparr>m_cachedValue := v, m_isDirty := False\<rparr>"
      using r mn by auto
    have h'': "h' = fmupd a (n\<lparr>m_cachedValue := v, m_isDirty := False\<rparr>) h2"
      unfolding h' modify_Some [OF n2] using n2' v by simp
    have "cachedFrom e now h h'"
      unfolding cachedFrom_def
    proof
      fix b
      show "rel_option
        (\<lambda>n n'. n' = n \<or>
           (m_type n = Derived \<and> m_isDirty n \<and>
            (\<exists>w. pulled e now h b w \<and> n' = n\<lparr>m_cachedValue := w, m_isDirty := False\<rparr>)))
        (fmlookup h b) (fmlookup h' b)"
      proof (cases "b = a")
        case True
        then show ?thesis
          using n 3 pv unfolding h'' by auto
      next
        case False
        then have "fmlookup h' b = fmlookup h2 b" unfolding h'' by simp
        then show ?thesis
          using cachedFrom_rel [OF c2, of b] by simp
      qed
    qed
    with pv show ?thesis ..
  qed
qed

lemma contributors_subset: "set (contributors e n) \<subseteq> set (parentsOf n)"
  by (auto simp: contributors_def parentsOf_def)

lemma cachedFrom_parentsOf:
  assumes "cachedFrom e now h h'" and "fmlookup h' b = Some n'"
  obtains n where "fmlookup h b = Some n" and "parentsOf n' = parentsOf n"
proof -
  obtain n where n: "fmlookup h b = Some n"
    and r: "n' = n \<or> (m_type n = Derived \<and> m_isDirty n \<and>
            (\<exists>w. pulled e now h b w \<and> n' = n\<lparr>m_cachedValue := w, m_isDirty := False\<rparr>))"
    using cachedFrom_Some [OF assms] by blast
  from r have "parentsOf n' = parentsOf n"
    by (auto simp: parentsOf_def)
  with n show ?thesis by (rule that)
qed

lemma ranked_cachedFrom:
  assumes "ranked r h" and "cachedFrom e now h h'"
  shows "ranked r h'"
  unfolding ranked_def
proof (intro allI impI)
  fix a n' assume "fmlookup h' a = Some n'"
  then obtain n where "fmlookup h a = Some n" "parentsOf n' = parentsOf n"
    using cachedFrom_parentsOf [OF assms(2)] by blast
  then show "\<forall>p \<in> set (parentsOf n'). r p < r a"
    using assms(1) unfolding ranked_def by simp
qed

lemma pullParents_returns:
  assumes g: "\<And>h p. ranked r h \<Longrightarrow> p \<in> fmdom' h \<Longrightarrow> r p < k
              \<Longrightarrow> \<exists>v h'. GetValue k e now h p = Some (v, h')"
  shows "ranked r h \<Longrightarrow> \<forall>p \<in> set ps. r p < k
     \<Longrightarrow> \<exists>vs h'. pullParents (GetValue k e now) h ps = Some (vs, h')"
proof (induction ps arbitrary: h)
  case Nil
  show ?case by simp
next
  case (Cons p ps)
  show ?case
  proof (cases "fmlookup h p")
    case None
    then show ?thesis using Cons.IH [OF Cons.prems(1)] Cons.prems(2) by simp
  next
    case (Some n)
    then have pd: "p \<in> fmdom' h" by (simp add: mem_fmdom'_None)
    have rp: "r p < k" using Cons.prems(2) by simp
    obtain v h1 where gv: "GetValue k e now h p = Some (v, h1)"
      using g [OF Cons.prems(1) pd rp] by blast
    have "ranked r h1"
      using ranked_cachedFrom [OF Cons.prems(1)] GetValue_pulled [OF gv] by blast
    then obtain vs h2 where "pullParents (GetValue k e now) h1 ps = Some (vs, h2)"
      using Cons.IH [of h1] Cons.prems(2) by auto
    then show ?thesis using Some gv by simp
  qed
qed

theorem GetValue_returns:
  "ranked r h \<Longrightarrow> a \<in> fmdom' h \<Longrightarrow> r a < k \<Longrightarrow> \<exists>v h'. GetValue k e now h a = Some (v, h')"
proof (induction k arbitrary: h a)
  case 0
  then show ?case by simp
next
  case (Suc k)
  obtain n where n: "fmlookup h a = Some n"
    using Suc.prems(2) by (auto simp: fmlookup_dom'_iff)
  consider "m_type n \<noteq> Derived" | "m_type n = Derived" "\<not> m_isDirty n"
    | "m_type n = Derived" "m_isDirty n" by blast
  then show ?case
  proof cases
    case 1
    then show ?thesis using GetValue_source [OF n 1] by simp
  next
    case 2
    then show ?thesis using GetValue_clean [OF n 2] by simp
  next
    case 3
    have "\<forall>p \<in> set (contributors e n). r p < k"
      using Suc.prems(1,3) n contributors_subset [of e n] unfolding ranked_def
      by (meson less_Suc_eq_le less_le_trans subsetD)
    then obtain vs h2 where "pullParents (GetValue k e now) h (contributors e n) = Some (vs, h2)"
      using pullParents_returns [of r k e now h "contributors e n", OF Suc.IH Suc.prems(1)]
      by blast
    then show ?thesis
      unfolding GetValue_dirty [OF n 3] by simp
  qed
qed

lemma GetValue_leaves_clean:
  assumes "GetValue k e now h a = Some (v, h')" and "fmlookup h a = Some n" and "m_type n = Derived"
  shows "\<exists>n'. fmlookup h' a = Some n' \<and> m_type n' = Derived \<and> \<not> m_isDirty n'
           \<and> m_cachedValue n' = v"
proof (cases k)
  case 0
  then show ?thesis using assms(1) by (simp add: GetValue.simps)
next
  case (Suc j)
  show ?thesis
  proof (cases "m_isDirty n")
    case False
    then show ?thesis
      using assms GetValue_clean [OF assms(2,3) False, of j e now] Suc by simp
  next
    case True
    obtain vs h2 where pp: "pullParents (GetValue j e now) h (contributors e n) = Some (vs, h2)"
      and v: "v = calcOf now n vs"
      and h': "h' = modify a (\<lambda>m. m\<lparr>m_cachedValue := calcOf now n vs, m_isDirty := False\<rparr>) h2"
      using assms(1) unfolding Suc GetValue_dirty [OF assms(2,3) True]
      by (cases "pullParents (GetValue j e now) h (contributors e n)") auto
    have c: "cachedFrom e now h h'"
      using GetValue_pulled [OF assms(1)] by simp
    obtain n' where n': "fmlookup h' a = Some n'"
      using cachedFrom_None [OF c, of a] assms(2) by (cases "fmlookup h' a") auto
    obtain m where "fmlookup h a = Some m"
      and r: "n' = m \<or> (m_type m = Derived \<and> m_isDirty m \<and>
            (\<exists>w. pulled e now h a w \<and> n' = m\<lparr>m_cachedValue := w, m_isDirty := False\<rparr>))"
      using cachedFrom_Some [OF c n'] by blast
    then have t: "m_type n' = Derived" using assms(2,3) by auto
    have "\<exists>n2. fmlookup h2 a = Some n2"
      using n' unfolding h' modify_def by (cases "fmlookup h2 a") auto
    then have "\<not> m_isDirty n' \<and> m_cachedValue n' = v"
      using n' unfolding h' v by (auto simp: modify_def)
    with n' t show ?thesis by blast
  qed
qed

lemma list_all2_unique:
  "list_all2 (\<lambda>p v. \<forall>w. P p w \<longrightarrow> v = w) xs vs \<Longrightarrow> list_all2 P xs ws \<Longrightarrow> vs = ws"
proof (induction xs arbitrary: vs ws)
  case Nil
  then show ?case by simp
next
  case (Cons x xs)
  obtain v vs' where vs: "vs = v # vs'"
    using Cons.prems(1) by (cases vs) auto
  obtain w ws' where ws: "ws = w # ws'"
    using Cons.prems(2) by (cases ws) auto
  have "v = w" using Cons.prems unfolding vs ws by simp
  moreover have "vs' = ws'"
    using Cons.IH [of vs' ws'] Cons.prems unfolding vs ws by simp
  ultimately show ?case unfolding vs ws by simp
qed

lemma pulled_unique:
  "pulled e now h a v \<Longrightarrow> pulled e now h a w \<Longrightarrow> v = w"
proof (induction arbitrary: w rule: pulled.induct)
  case (source a n)
  from source(3) show ?case
    using source(1,2) by (cases rule: pulled.cases) auto
next
  case (cached a n)
  from cached(4) show ?case
    using cached(1,2,3) by (cases rule: pulled.cases) auto
next
  case (recomputed a n vs)
  from recomputed(5) show ?case
  proof (cases rule: pulled.cases)
    case (source m)
    then show ?thesis using recomputed(1,2) by simp
  next
    case (cached m)
    then show ?thesis using recomputed(1,3) by simp
  next
    case (recomputed m ws)
    then have mn: "m = n" using \<open>fmlookup h a = Some n\<close> by simp
    have "list_all2 (\<lambda>p v. \<forall>w. pulled e now h p w \<longrightarrow> v = w) (inputs e h n) vs"
      using \<open>list_all2 (\<lambda>x1 x2. pulled e now h x1 x2 \<and> (\<forall>x. pulled e now h x1 x \<longrightarrow> x2 = x)) (inputs e h n) vs\<close>
      by (rule list_all2_mono) simp
    moreover have "list_all2 (pulled e now h) (inputs e h n) ws"
      using recomputed(5) mn by simp
    ultimately have "vs = ws"
      by (rule list_all2_unique)
    then show ?thesis using recomputed(1) mn by simp
  qed
qed

section \<open>The claims about the graph\<close>

lemmas ex_eval = ex_defs exDouble_def exChain_def exStale_def SetCalculationFunc_def
  GetValue.simps numeral_2_eq_2 calcOf_def applyCalc_def

lemma exStale_nodes:
  "fmlookup exStale 0 = Some ((new_StatNode ''A'' ''A'' 10 Base)\<lparr>m_children := [1]\<rparr>)"
  "fmlookup exStale (Suc 0) = Some ((new_StatNode ''B'' ''B'' 0 Derived)\<lparr>m_parents := [0], m_children := [2]\<rparr>)"
  "fmlookup exStale 2 = Some ((new_StatNode ''D'' ''D'' 0 Derived)
     \<lparr>m_isDirty := False,
      m_conditionalParents := [\<lparr> cp_node = 1, cp_condition = Some (\<lambda>conditionMet. conditionMet),
                                  conditionDesc = ''Test Condition'', lastActive = True \<rparr>]\<rparr>)"
  by (simp_all add: ex_eval)

lemma exStale_facts:
  "1 \<in> dirtySet exStale" "2 \<notin> dirtySet exStale" "2 \<in> descendants exStale 1"
  "2 \<in> descendants exStale 0" "2 \<in> fmdom' exStale"
proof -
  show "1 \<in> dirtySet exStale" "2 \<notin> dirtySet exStale" "2 \<in> fmdom' exStale"
    by (simp_all add: dirtySet_def exStale_nodes new_StatNode_def mem_fmdom'_None)
  have a: "(1, 2) \<in> childEdges exStale" "(0, 1) \<in> childEdges exStale"
    by (simp_all add: childEdges_def exStale_nodes new_StatNode_def mem_fmdom'_None)
  show "2 \<in> descendants exStale 1"
    unfolding descendants_def using a(1) by blast
  show "2 \<in> descendants exStale 0"
    unfolding descendants_def using a by (simp add: trancl_into_trancl)
qed

lemma exStale_MarkDirty: "1 \<in> dirtySet exStale \<and>
   dirtySet (MarkDirty 1 exStale) \<noteq> dirtySet (markEach ({1} \<union> descendants exStale 1) exStale)"
proof -
  have "MarkDirty 1 exStale = exStale"
    by (simp add: MarkDirty_def exStale_nodes new_StatNode_def)
  moreover have "2 \<in> dirtySet (markEach ({1} \<union> descendants exStale 1) exStale)"
    unfolding dirtySet_markEach using exStale_facts by simp
  ultimately show ?thesis
    using exStale_facts(1,2) by auto
qed

lemma exStale_SetBaseValue: "2 \<in> descendants exStale 0 \<and> map_option m_type (fmlookup exStale 2) = Some Derived
   \<and> map_option m_type (fmlookup exStale 0) = Some Base
   \<and> map_option m_baseValue (fmlookup exStale 0) = Some 10
   \<and> 2 \<notin> dirtySet (SetBaseValue 0 20 exStale)"
proof -
  have "SetBaseValue 0 20 exStale
      = fmupd 0 ((new_StatNode ''A'' ''A'' 10 Base)\<lparr>m_children := [1], m_baseValue := 20, m_cachedValue := 20\<rparr>) exStale"
    by (simp add: SetBaseValue_def exStale_nodes new_StatNode_def Let_def)
  then have "2 \<notin> dirtySet (SetBaseValue 0 20 exStale)"
    by (simp add: dirtySet_def exStale_nodes new_StatNode_def)
  then show ?thesis
    using exStale_facts(4) by (simp add: exStale_nodes new_StatNode_def)
qed

lemma exDouble_ranked: "ranked (\<lambda>a. a) exDouble"
  by (auto simp: ranked_def parentsOf_def ex_eval split: if_splits)

lemma exDouble_pull:
  "GetValue 2 () 0 exDouble 1 =
     Some (20, fmupd 1 ((new_StatNode ''derived'' ''Derived'' 0 Derived)
        \<lparr>m_parents := [0], m_calculateFunc := Some (Custom (\<lambda>vs. 2 * sum_list vs)),
         m_cachedValue := 20, m_isDirty := False\<rparr>) exDouble)"
  by (simp add: ex_eval)

lemma exConditional_nodes:
  "fmlookup exConditional 0 = Some ((new_StatNode ''base'' ''Base'' 100 Base)\<lparr>m_children := [2]\<rparr>)"
  "fmlookup exConditional (Suc 0) = Some ((new_StatNode ''bonus'' ''Bonus'' 50 Base)\<lparr>m_children := [2]\<rparr>)"
  "fmlookup exConditional 2 = Some ((new_StatNode ''derived'' ''Derived'' 0 Derived)
     \<lparr>m_parents := [0],
      m_conditionalParents := [\<lparr> cp_node = 1, cp_condition = Some (\<lambda>conditionMet. conditionMet),
                                  conditionDesc = ''Test Condition'', lastActive = True \<rparr>]\<rparr>)"
  by (simp_all add: ex_eval)

lemma exConditional_dom: "fmdom' exConditional = {0, 1, 2}"
  by (auto simp: ex_eval)

lemma exConditional_downClosed: "downClosed exConditional"
  unfolding downClosed_def childEdges_def dirtySet_def
  by (auto simp: ex_eval split: if_splits)

lemma exNullCondition_nodes:
  "fmlookup exNullCondition (Suc 0) = Some ((new_StatNode ''bonus'' ''Bonus'' 50 Base)\<lparr>m_children := [2]\<rparr>)"
  "fmlookup exNullCondition 2 = Some ((new_StatNode ''derived'' ''Derived'' 0 Derived)
     \<lparr>m_parents := [0],
      m_conditionalParents := [\<lparr> cp_node = 1, cp_condition = None,
                                  conditionDesc = ''Test Condition'', lastActive = True \<rparr>]\<rparr>)"
  by (simp_all add: ex_eval)

lemma GetValue_second:
  assumes "fmlookup h' a = Some n'" and "m_type n' = Derived" and "\<not> m_isDirty n'"
  shows "GetValue (Suc j) e now (SetCalculationFunc a g h') a
           = Some (m_cachedValue n', SetCalculationFunc a g h')"
proof -
  have "fmlookup (SetCalculationFunc a g h') a = Some (n'\<lparr>m_calculateFunc := g\<rparr>)"
    using assms(1) by (simp add: SetCalculationFunc_def modify_def)
  from GetValue_clean [OF this, of j e now] assms(2,3) show ?thesis by simp
qed

text \<open>
  Claim C3. Let \<open>a\<close> be a dirty Derived node with calculation function \<open>f\<close>. On a graph
  without cycle \<^verbatim>\<open>GetValue\<close> returns. Whenever it returns, the value is \<open>f\<close> applied to the
  list of the pulled values of its inputs, in their order; and a second \<^verbatim>\<open>GetValue\<close> on the
  heap it left returns the same number and leaves the heap as it is, at any depth bound
  (so without any recursive call) and whatever calculation function the node then has (so
  without calling \<open>f\<close>).
\<close>

theorem C3_GetValue_lazy:
  assumes "fmlookup h a = Some n" and "m_type n = Derived" and "m_isDirty n"
    and "m_calculateFunc n = Some (Custom f)"
  shows "(ranked r h \<longrightarrow> (\<exists>v h'. GetValue (Suc (r a)) e now h a = Some (v, h')))
    \<and> (\<forall>k v h'. GetValue k e now h a = Some (v, h') \<longrightarrow>
          (\<exists>vs. list_all2 (pulled e now h) (inputs e h n) vs \<and> v = f vs)
          \<and> (\<forall>j. GetValue (Suc j) e now h' a = Some (v, h'))
          \<and> (\<forall>j g. GetValue (Suc j) e now (SetCalculationFunc a g h') a
                      = Some (v, SetCalculationFunc a g h')))"
proof (intro conjI impI allI)
  assume "ranked r h"
  moreover have "a \<in> fmdom' h" using assms(1) by (simp add: mem_fmdom'_None)
  ultimately show "\<exists>v h'. GetValue (Suc (r a)) e now h a = Some (v, h')"
    by (rule GetValue_returns) simp
next
  fix k v h' assume g: "GetValue k e now h a = Some (v, h')"
  have "pulled e now h a v"
    using GetValue_pulled [OF g] by simp
  then show "\<exists>vs. list_all2 (pulled e now h) (inputs e h n) vs \<and> v = f vs"
    using assms by (cases rule: pulled.cases) (auto simp: calcOf_def applyCalc_def)
next
  fix k v h' j assume g: "GetValue k e now h a = Some (v, h')"
  obtain n' where n': "fmlookup h' a = Some n'" "m_type n' = Derived" "\<not> m_isDirty n'"
    "m_cachedValue n' = v"
    using GetValue_leaves_clean [OF g assms(1,2)] by blast
  show "GetValue (Suc j) e now h' a = Some (v, h')"
    using GetValue_clean [OF n'(1,2,3), of j e now] n'(4) by simp
next
  fix k v h' j g assume gv: "GetValue k e now h a = Some (v, h')"
  obtain n' where n': "fmlookup h' a = Some n'" "m_type n' = Derived" "\<not> m_isDirty n'"
    "m_cachedValue n' = v"
    using GetValue_leaves_clean [OF gv assms(1,2)] by blast
  show "GetValue (Suc j) e now (SetCalculationFunc a g h') a = Some (v, SetCalculationFunc a g h')"
    using GetValue_second [OF n'(1,2,3), of j e now g] n'(4) by simp
qed

theorem C3_GetValue_lazy_witness:
  "ranked (\<lambda>a. a) exDouble
   \<and> (\<exists>h'. GetValue 2 () 0 exDouble 1 = Some (20, h') \<and> GetValue 1 () 0 h' 1 = Some (20, h'))"
proof -
  let ?n = "(new_StatNode ''derived'' ''Derived'' 0 Derived)
        \<lparr>m_parents := [0], m_calculateFunc := Some (Custom (\<lambda>vs. 2 * sum_list vs))\<rparr>"
  have n: "fmlookup exDouble 1 = Some ?n" "m_type ?n = Derived" "m_isDirty ?n"
    "m_calculateFunc ?n = Some (Custom (\<lambda>vs. 2 * sum_list vs))"
    by (simp_all add: ex_eval)
  from C3_GetValue_lazy [OF n, of "\<lambda>a. a" "()" 0] exDouble_pull exDouble_ranked
  show ?thesis
    by (metis One_nat_def)
qed

text \<open>
  Claim C5. A dirty Derived node without calculation function returns the sum of the
  pulled values of its inputs; the inputs are the ordinary parents and exactly those
  conditional parents whose predicate is true in the state \<open>e\<close> at the time of the
  computation (of the objects that exist); the loop over the conditional parents is the
  loop over those parents. In the graph of the test, \<^verbatim>\<open>GetValue\<close> is 100 while the flag is
  false, and after the flag is set, \<^verbatim>\<open>MarkDirty\<close> and \<^verbatim>\<open>GetValue\<close> give 150.
\<close>

theorem C5_conditional_parent:
  "(fmlookup h a = Some n \<and> m_type n = Derived \<and> m_isDirty n \<and> m_calculateFunc n = None
      \<and> GetValue k e now h a = Some (v, h')
    \<longrightarrow> (\<exists>vs. list_all2 (pulled e now h) (inputs e h n) vs \<and> v = sum_list vs))
   \<and> inputs e h n =
       filter (\<lambda>p. p \<in> fmdom' h) (m_parents n)
       @ map cp_node (filter (\<lambda>cp. cp_node cp \<in> fmdom' h \<and> predicateTrue e cp)
                        (m_conditionalParents n))
   \<and> pullConditional g e h cps = pullParents g h (map cp_node (filter (predicateTrue e) cps))
   \<and> map_option fst (GetValue 2 False now exConditional 2) = Some 100
   \<and> (case GetValue 2 False now exConditional 2 of
         None \<Rightarrow> None
       | Some (v, h') \<Rightarrow> map_option fst (GetValue 2 True now (MarkDirty 2 h') 2)) = Some 150"
proof (intro conjI impI)
  assume a: "fmlookup h a = Some n \<and> m_type n = Derived \<and> m_isDirty n \<and> m_calculateFunc n = None
      \<and> GetValue k e now h a = Some (v, h')"
  then have "pulled e now h a v"
    using GetValue_pulled [of k e now h a v h'] by simp
  then show "\<exists>vs. list_all2 (pulled e now h) (inputs e h n) vs \<and> v = sum_list vs"
    using a by (cases rule: pulled.cases) (auto simp: calcOf_def)
next
  show "inputs e h n =
       filter (\<lambda>p. p \<in> fmdom' h) (m_parents n)
       @ map cp_node (filter (\<lambda>cp. cp_node cp \<in> fmdom' h \<and> predicateTrue e cp)
                        (m_conditionalParents n))"
    by (simp add: inputs_def contributors_def filter_map comp_def conj_commute)
next
  show "pullConditional g e h cps = pullParents g h (map cp_node (filter (predicateTrue e) cps))"
    by (rule pullConditional_filter)
next
  show "map_option fst (GetValue 2 False now exConditional 2) = Some 100"
    by (simp add: ex_eval)
next
  show "(case GetValue 2 False now exConditional 2 of
         None \<Rightarrow> None
       | Some (v, h') \<Rightarrow> map_option fst (GetValue 2 True now (MarkDirty 2 h') 2)) = Some 150"
    by (simp add: ex_eval MarkDirty_def)
qed

theorem C5_conditional_parent_witness:
  "\<exists>n h'. fmlookup exConditional 2 = Some n \<and> GetValue 2 False 0 exConditional 2 = Some (100, h')
     \<and> (\<exists>vs. list_all2 (pulled False 0 exConditional) (inputs False exConditional n) vs
           \<and> 100 = sum_list vs)"
proof -
  let ?n = "(new_StatNode ''derived'' ''Derived'' 0 Derived)
     \<lparr>m_parents := [0],
      m_conditionalParents := [\<lparr> cp_node = 1, cp_condition = Some (\<lambda>conditionMet. conditionMet),
                                  conditionDesc = ''Test Condition'', lastActive = True \<rparr>]\<rparr>"
  obtain h' where g: "GetValue 2 False 0 exConditional 2 = Some (100, h')"
    by (simp add: ex_eval)
  have n: "fmlookup exConditional 2 = Some ?n" "m_type ?n = Derived" "m_isDirty ?n"
    "m_calculateFunc ?n = None"
    by (simp_all add: exConditional_nodes new_StatNode_def)
  show ?thesis
    using C5_conditional_parent [of exConditional 2 ?n 2 False 0 100 h'] g n
    by blast
qed

text \<open>
  Claim C10. Removing every conditional edge without predicate from every node changes
  the result of no \<^verbatim>\<open>GetValue\<close>: such an edge never contributes. \<^verbatim>\<open>GetEdgeStates\<close> reports
  such an edge as active. \<^verbatim>\<open>AddConditionalParent\<close> with an empty function makes such an
  edge. In the graph of the test with an empty predicate, \<^verbatim>\<open>GetValue\<close> is 100 (the bonus of
  50 is left out) and \<^verbatim>\<open>GetEdgeStates\<close> lists the edge from the bonus as active.
\<close>

theorem C10_null_condition:
  "map_option fst (GetValue k e now (fmmap dropNull h) a) = map_option fst (GetValue k e now h a)
   \<and> (cp \<in> set (m_conditionalParents n) \<and> cp_condition cp = None
        \<and> fmlookup h (cp_node cp) = Some parent
      \<longrightarrow> \<lparr> fromId = m_id parent, toId = m_id n, isActive = True, isConditional = True,
              condition = conditionDesc cp \<rparr> \<in> set (GetEdgeStates e h n))
   \<and> (fmlookup h a = Some n \<and> fmlookup h p = Some pn \<and> a \<noteq> p
      \<longrightarrow> (\<exists>n'. fmlookup (AddConditionalParent a p None desc h) a = Some n'
            \<and> m_conditionalParents n' = m_conditionalParents n @
                [\<lparr> cp_node = p, cp_condition = None, conditionDesc = desc, lastActive = True \<rparr>]))
   \<and> map_option fst (GetValue 2 flag now exNullCondition 2) = Some 100
   \<and> map_option (GetEdgeStates flag exNullCondition) (fmlookup exNullCondition 2) =
       Some [\<lparr> fromId = ''base'', toId = ''derived'', isActive = True, isConditional = False,
               condition = [] \<rparr>,
             \<lparr> fromId = ''bonus'', toId = ''derived'', isActive = True, isConditional = True,
               condition = ''Test Condition'' \<rparr>]"
proof (intro conjI impI)
  show "map_option fst (GetValue k e now (fmmap dropNull h) a) = map_option fst (GetValue k e now h a)"
    unfolding GetValue_dropNull by (cases "GetValue k e now h a") auto
next
  assume "cp \<in> set (m_conditionalParents n) \<and> cp_condition cp = None
        \<and> fmlookup h (cp_node cp) = Some parent"
  then have 1: "cp \<in> set (m_conditionalParents n)" and 2: "cp_condition cp = None"
    and 3: "fmlookup h (cp_node cp) = Some parent"
    by simp_all
  show "\<lparr> fromId = m_id parent, toId = m_id n, isActive = True, isConditional = True,
              condition = conditionDesc cp \<rparr> \<in> set (GetEdgeStates e h n)"
    by (rule GetEdgeStates_null_active [OF 1 2 3])
next
  assume "fmlookup h a = Some n \<and> fmlookup h p = Some pn \<and> a \<noteq> p"
  then have 1: "fmlookup h a = Some n" and 2: "fmlookup h p = Some pn" and 3: "a \<noteq> p"
    by simp_all
  show "\<exists>n'. fmlookup (AddConditionalParent a p None desc h) a = Some n'
            \<and> m_conditionalParents n' = m_conditionalParents n @
                [\<lparr> cp_node = p, cp_condition = None, conditionDesc = desc, lastActive = True \<rparr>]"
    by (rule AddConditionalParent_null [OF 1 2 3])
next
  show "map_option fst (GetValue 2 flag now exNullCondition 2) = Some 100"
    by (simp add: ex_eval)
next
  show "map_option (GetEdgeStates flag exNullCondition) (fmlookup exNullCondition 2) =
       Some [\<lparr> fromId = ''base'', toId = ''derived'', isActive = True, isConditional = False,
               condition = [] \<rparr>,
             \<lparr> fromId = ''bonus'', toId = ''derived'', isActive = True, isConditional = True,
               condition = ''Test Condition'' \<rparr>]"
    by (simp add: ex_defs GetEdgeStates_def List.map_filter_simps)
qed

theorem C10_null_condition_witness:
  "\<lparr> fromId = ''bonus'', toId = ''derived'', isActive = True, isConditional = True,
      condition = ''Test Condition'' \<rparr>
     \<in> set (GetEdgeStates True exNullCondition
          ((new_StatNode ''derived'' ''Derived'' 0 Derived)
             \<lparr>m_parents := [0],
              m_conditionalParents := [\<lparr> cp_node = 1, cp_condition = None,
                                  conditionDesc = ''Test Condition'', lastActive = True \<rparr>]\<rparr>))
   \<and> map_option fst (GetValue 2 True 0 exNullCondition 2) = Some 100"
proof -
  let ?cp = "\<lparr> cp_node = 1, cp_condition = None :: (bool \<Rightarrow> bool) option,
                conditionDesc = ''Test Condition'', lastActive = True \<rparr>"
  let ?n = "(new_StatNode ''derived'' ''Derived'' 0 Derived)
             \<lparr>m_parents := [0], m_conditionalParents := [?cp]\<rparr> :: bool StatNode"
  let ?p = "(new_StatNode ''bonus'' ''Bonus'' 50 Base)\<lparr>m_children := [2]\<rparr> :: bool StatNode"
  have "?cp \<in> set (m_conditionalParents ?n) \<and> cp_condition ?cp = None
        \<and> fmlookup exNullCondition (cp_node ?cp) = Some ?p"
    by (simp add: exNullCondition_nodes)
  then show ?thesis
    using C10_null_condition [of 2 True 0 exNullCondition 2 ?cp ?n ?p]
    by (simp add: new_StatNode_def)
qed

text \<open>
  Claim C6, as amended. \<^verbatim>\<open>MarkDirty\<close> on a dirty node leaves the heap as it is. When the
  children of every dirty node are dirty, \<^verbatim>\<open>MarkDirty\<close> on any node gives the heap obtained
  by marking that node and each of its transitive descendants dirty independently, and
  the children of every dirty node are dirty again.
\<close>

theorem C6_MarkDirty:
  "(fmlookup h a = Some n \<and> m_isDirty n \<longrightarrow> MarkDirty a h = h)
   \<and> (downClosed h \<and> a \<in> fmdom' h \<longrightarrow>
        MarkDirty a h = markEach ({a} \<union> descendants h a) h
        \<and> dirtySet (MarkDirty a h) = dirtySet h \<union> ({a} \<union> descendants h a) \<inter> fmdom' h
        \<and> downClosed (MarkDirty a h))"
proof (intro conjI impI)
  assume "fmlookup h a = Some n \<and> m_isDirty n"
  then show "MarkDirty a h = h" by (simp add: MarkDirty_dirty)
next
  assume a: "downClosed h \<and> a \<in> fmdom' h"
  then show "MarkDirty a h = markEach ({a} \<union> descendants h a) h"
    using MarkDirty_downClosed by blast
  then show "dirtySet (MarkDirty a h) = dirtySet h \<union> ({a} \<union> descendants h a) \<inter> fmdom' h"
    by (simp only: dirtySet_markEach)
  show "downClosed (MarkDirty a h)"
    using a MarkDirty_downClosed by blast
qed

theorem C6_MarkDirty_witness:
  "downClosed exConditional \<and> 0 \<in> fmdom' exConditional
   \<and> MarkDirty 2 exConditional = exConditional
   \<and> MarkDirty 0 exConditional = markEach ({0} \<union> descendants exConditional 0) exConditional"
proof -
  let ?n = "(new_StatNode ''derived'' ''Derived'' 0 Derived)
     \<lparr>m_parents := [0],
      m_conditionalParents := [\<lparr> cp_node = 1, cp_condition = Some (\<lambda>conditionMet. conditionMet),
                                  conditionDesc = ''Test Condition'', lastActive = True \<rparr>]\<rparr>"
  have d: "0 \<in> fmdom' exConditional"
    by (simp add: exConditional_dom)
  have n: "fmlookup exConditional 2 = Some ?n \<and> m_isDirty ?n"
    by (simp add: exConditional_nodes new_StatNode_def)
  show ?thesis
    using C6_MarkDirty [of exConditional 2 ?n] C6_MarkDirty [of exConditional 0]
      exConditional_downClosed d n
    by blast
qed

text \<open>
  The claim as stated fails on \<open>exStale\<close>, a state reached by building a graph and pulling
  one node: \<open>B\<close> is dirty and its child \<open>D\<close> is clean, so \<^verbatim>\<open>MarkDirty\<close> on \<open>B\<close> leaves \<open>D\<close>
  clean, while marking \<open>B\<close> and its descendants independently makes \<open>D\<close> dirty.
\<close>

theorem C6_MarkDirty_counterexample:
  "1 \<in> dirtySet exStale \<and>
   dirtySet (MarkDirty 1 exStale) \<noteq> dirtySet (markEach ({1} \<union> descendants exStale 1) exStale)"
  by (rule exStale_MarkDirty)

section \<open>The claims about the manager\<close>

lemmas gm_eval = new_GraphManager_def CreateHistoryNode_def RegisterNode_def SetCategory_def
  SetIsHistoryNode_def modify_def new_HistoryStatNode_def new_StatNode_def Let_def
  RecordDamage_def GetHistoryNode_def RecordEvent_def popExcess_drop MAX_EVENTS_def
  MarkDirty_def

lemma exManager_created:
  "CreateHistoryNode 0 0 ''damageTaken'' ''Total DMG Taken'' 4 ''defense'' new_GraphManager
     = Inr exManager"
  by (simp add: exManager_def gm_eval)

lemma exDamaged_node:
  "fmlookup (heap exDamaged) 0 =
     Some \<lparr> m_id = ''damageTaken'', m_label = ''Total DMG Taken'', m_baseValue = 0,
            m_cachedValue = 0, m_isDirty = True, m_type = History, m_parents = [],
            m_conditionalParents = [], m_children = [], m_calculateFunc = Some SumRecentDefault,
            m_nodeCategory = ''defense'', m_isHistoryNode = True,
            m_history = Some \<lparr> m_events = [\<lparr> ev_value = 10, timestamp = 0, eventType = ''Fire'' \<rparr>],
                                m_defaultWindow = 4, m_lastCleanup = 0 \<rparr> \<rparr>"
  by (simp add: exDamaged_def exManager_def gm_eval)

text \<open>
  Claim C2. A history node made by \<^verbatim>\<open>CreateHistoryNode\<close> returns \<^verbatim>\<open>SumRecent(defaultWindow)\<close>
  from \<^verbatim>\<open>GetValue\<close>. The code at the failing input: the manager makes the node with a window
  of 4 seconds and records a damage of 10 at the same instant; \<^verbatim>\<open>SetIsHistoryNode\<close> has set
  the type of the node to \<open>History\<close>, so \<^verbatim>\<open>GetValue\<close> returns the base value 0, while
  \<^verbatim>\<open>SumRecent\<close> over the default window is 10.
\<close>

theorem C2_history_node_value:
  "CreateHistoryNode 0 0 ''damageTaken'' ''Total DMG Taken'' 4 ''defense'' new_GraphManager
     = Inr exManager
   \<and> map_option fst (GetValue (Suc k) e 0 (heap exDamaged) 0) = Some 0
   \<and> map_option (\<lambda>hp. SumRecent 0 hp (m_defaultWindow hp)) (ledgerAt (heap exDamaged) 0) = Some 10"
  by (simp add: exManager_created GetValue.simps exDamaged_node ledgerAt_def SumRecent_def
      IsWithinWindow_def GetAge_def)

text \<open>
  A \<^verbatim>\<open>HistoryStatNode\<close> as its constructor leaves it (type \<open>Derived\<close>, dirty) does return
  \<^verbatim>\<open>SumRecent\<close> over its default window.
\<close>

lemma standalone_history_pull:
  assumes "fmlookup h a = Some (new_HistoryStatNode i l w t\<lparr>m_history := Some hp\<rparr>)"
  shows "map_option fst (GetValue (Suc k) e now h a) = Some (SumRecent now hp (m_defaultWindow hp))"
  using assms
  by (simp add: GetValue.simps new_HistoryStatNode_def new_StatNode_def applyCalc_def Let_def)

lemma filter_id: "\<forall>x \<in> set xs. P x \<Longrightarrow> filter P xs = xs"
  by (induction xs) simp_all

lemma RemoveModifier_unknown:
  "\<forall>m \<in> set agg. mod_id m \<noteq> i \<Longrightarrow> RemoveModifier i agg = agg"
  by (simp add: RemoveModifier_def filter_id)

lemma RemoveModifiersBySource_unknown:
  "\<forall>m \<in> set agg. m_sourceId m \<noteq> src \<Longrightarrow> RemoveModifiersBySource src agg = agg"
  by (simp add: RemoveModifiersBySource_def filter_id)

lemma MarkDirtyEach_Nil: "MarkDirtyEach [] h = h"
  by (simp add: MarkDirtyEach_def)

lemma MarkDirtyEach_Cons: "MarkDirtyEach (a # as) h = MarkDirtyEach as (MarkDirty a h)"
  by (simp add: MarkDirtyEach_def)

lemma RemoveModifiersBySource_loop_unmatched:
  "\<forall>(s, agg) \<in> set ms. \<forall>m \<in> set agg. m_sourceId m \<noteq> src
     \<Longrightarrow> RemoveModifiersBySource_loop nodes src ms h
         = (ms, MarkDirtyEach (List.map_filter (\<lambda>(statId, aggregator). fmlookup nodes statId) ms) h)"
proof (induction ms arbitrary: h)
  case Nil
  show ?case by (simp add: MarkDirtyEach_Nil List.map_filter_simps)
next
  case (Cons x ms)
  obtain statId agg where x: "x = (statId, agg)" by (cases x)
  have agg: "RemoveModifiersBySource src agg = agg"
    using Cons.prems x by (intro RemoveModifiersBySource_unknown) auto
  have rest: "\<forall>(s, agg) \<in> set ms. \<forall>m \<in> set agg. m_sourceId m \<noteq> src"
    using Cons.prems by simp
  show ?case
    unfolding x using agg Cons.IH [OF rest]
    by (cases "fmlookup nodes statId")
       (simp_all add: Let_def List.map_filter_simps MarkDirtyEach_Cons)
qed

lemma MarkDirtyEach_markEach_ex: "\<exists>S. MarkDirtyEach as h = markEach S h"
proof (induction as arbitrary: h)
  case Nil
  have "MarkDirtyEach [] h = markEach {} h"
    by (simp add: MarkDirtyEach_Nil markEach_empty)
  then show ?case by blast
next
  case (Cons a as)
  obtain S1 where s1: "MarkDirty a h = markEach S1 h"
    using MarkDirty_markEach_ex by blast
  obtain S2 where s2: "MarkDirtyEach as (MarkDirty a h) = markEach S2 (MarkDirty a h)"
    using Cons.IH by blast
  have "MarkDirtyEach (a # as) h = markEach (S1 \<union> S2) h"
    unfolding MarkDirtyEach_Cons s2 unfolding s1 by (rule markEach_markEach)
  then show ?case by blast
qed

lemma MarkDirtyEach_markEach:
  "MarkDirtyEach as h = markEach (dirtySet (MarkDirtyEach as h)) h"
proof -
  obtain S where s: "MarkDirtyEach as h = markEach S h"
    using MarkDirtyEach_markEach_ex by blast
  show ?thesis unfolding s by (rule markEach_dirtySet_idem [symmetric])
qed

lemma MarkDirty_marks: "a \<in> fmdom' h \<Longrightarrow> a \<in> dirtySet (MarkDirty a h)"
proof -
  assume "a \<in> fmdom' h"
  then obtain n where n: "fmlookup h a = Some n" by (auto simp: fmlookup_dom'_iff)
  show ?thesis
  proof (cases "m_isDirty n")
    case True
    then show ?thesis using n by (simp add: MarkDirty_def dirtySet_def)
  next
    case False
    have "a \<in> dirtySet (fmupd a (n\<lparr>m_isDirty := True\<rparr>) h)"
      by (simp add: dirtySet_def)
    then have "a \<in> dirtySet (InvalidateChildren (fmupd a (n\<lparr>m_isDirty := True\<rparr>) h) (m_children n))"
      using InvalidateChildren_dirty_mono by blast
    then show ?thesis using n False by (simp add: MarkDirty_def)
  qed
qed

lemma MarkDirtyEach_marks:
  "a \<in> set as \<Longrightarrow> a \<in> fmdom' h \<Longrightarrow> a \<in> dirtySet (MarkDirtyEach as h)"
proof (induction as arbitrary: h)
  case Nil
  then show ?case by simp
next
  case (Cons b as)
  obtain S where s: "MarkDirty b h = markEach S h"
    using MarkDirty_markEach_ex by blast
  have dom: "fmdom' (MarkDirty b h) = fmdom' h"
    unfolding s by (rule fmdom'_markEach)
  show ?case
  proof (cases "a \<in> set as")
    case True
    then show ?thesis
      unfolding MarkDirtyEach_Cons using Cons.IH [of "MarkDirty b h"] Cons.prems(2) dom by simp
  next
    case False
    then have ab: "a = b" using Cons.prems(1) by simp
    have "a \<in> dirtySet (MarkDirty b h)"
      unfolding ab using Cons.prems(2) ab by (intro MarkDirty_marks) simp
    moreover obtain T where "MarkDirtyEach as (MarkDirty b h) = markEach T (MarkDirty b h)"
      using MarkDirtyEach_markEach_ex by blast
    ultimately show ?thesis
      unfolding MarkDirtyEach_Cons by (simp add: mem_dirtySet_markEach)
  qed
qed

lemma descendants_markEach: "descendants (markEach S h) a = descendants h a"
  by (simp add: descendants_def childEdges_markEach)

lemma MarkDirtyEach_downClosed:
  "downClosed h \<Longrightarrow>
     MarkDirtyEach as h = markEach (\<Union>a \<in> set as \<inter> fmdom' h. {a} \<union> descendants h a) h
     \<and> downClosed (MarkDirtyEach as h)"
proof (induction as arbitrary: h)
  case Nil
  then show ?case by (simp add: MarkDirtyEach_Nil markEach_empty)
next
  case (Cons b as)
  let ?h1 = "MarkDirty b h"
  let ?S1 = "if b \<in> fmdom' h then {b} \<union> descendants h b else {}"
  have h1: "?h1 = markEach ?S1 h \<and> downClosed ?h1"
  proof (cases "b \<in> fmdom' h")
    case True
    then have s: "?S1 = {b} \<union> descendants h b" by simp
    show ?thesis by (subst s) (rule MarkDirty_downClosed [OF Cons.prems True])
  next
    case False
    then have "fmlookup h b = None" by (simp add: mem_fmdom'_None)
    then have "MarkDirty b h = h" by (simp add: MarkDirty_def)
    then show ?thesis using False Cons.prems by (simp add: markEach_empty)
  qed
  have eq1: "?h1 = markEach ?S1 h" using h1 ..
  have dc1: "downClosed ?h1" using h1 ..
  have dom: "fmdom' ?h1 = fmdom' h"
    by (subst eq1) (rule fmdom'_markEach)
  have desc: "\<And>a. descendants ?h1 a = descendants h a"
    by (subst eq1) (rule descendants_markEach)
  have ih: "MarkDirtyEach as ?h1 = markEach (\<Union>a \<in> set as \<inter> fmdom' h. {a} \<union> descendants h a) ?h1
            \<and> downClosed (MarkDirtyEach as ?h1)"
    using Cons.IH [OF dc1] unfolding dom desc .
  have "MarkDirtyEach (b # as) h
      = markEach (\<Union>a \<in> set as \<inter> fmdom' h. {a} \<union> descendants h a) (markEach ?S1 h)"
    unfolding MarkDirtyEach_Cons using ih eq1 by simp
  also have "\<dots> = markEach (?S1 \<union> (\<Union>a \<in> set as \<inter> fmdom' h. {a} \<union> descendants h a)) h"
    by (rule markEach_markEach)
  also have "?S1 \<union> (\<Union>a \<in> set as \<inter> fmdom' h. {a} \<union> descendants h a)
      = (\<Union>a \<in> set (b # as) \<inter> fmdom' h. {a} \<union> descendants h a)"
    by auto
  finally have eq: "MarkDirtyEach (b # as) h
      = markEach (\<Union>a \<in> set (b # as) \<inter> fmdom' h. {a} \<union> descendants h a) h" .
  have "downClosed (MarkDirtyEach (b # as) h)"
    unfolding MarkDirtyEach_Cons using ih ..
  with eq show ?case ..
qed

lemma exEquipped_eq:
  "exEquipped =
     \<lparr> heap = fmupd 0 (new_StatNode ''strength'' ''Strength'' 10 Base) fmempty,
       m_nodes = fmupd ''strength'' 0 fmempty, m_historyNodes = fmempty,
       m_nodeOrder = [''strength''],
       m_modifiers = [(''strength'',
          [(new_Modifier ''ring'' ''strength'' Flat 5 [])\<lparr>m_sourceId := ''equipment''\<rparr>])],
       m_hasChanges = True \<rparr>"
  by (simp add: exEquipped_def CreateBaseStat_def GM_AddModifier_def atKey_def AddModifier_def
      GetNode_def gm_eval new_Modifier_def)

lemma exEquipped_facts:
  "GetNode exEquipped ''unknown'' = None" "GetHistoryNode exEquipped ''unknown'' = None"
  "aggregatorNodes exEquipped = [0]" "fmdom' (heap exEquipped) = {0}"
  "dirtySet (heap exEquipped) = {}" "childEdges (heap exEquipped) = {}"
  by (auto simp: exEquipped_eq GetNode_def GetHistoryNode_def aggregatorNodes_def
      List.map_filter_simps dirtySet_def childEdges_def new_StatNode_def split: if_splits)

text \<open>
  Claim C9, as amended. \<^verbatim>\<open>SetNodeValue\<close> on an unknown stat id returns false and changes
  nothing; \<^verbatim>\<open>RecordDamage\<close> on an unknown history-node id changes nothing. \<^verbatim>\<open>RemoveModifier\<close>
  with an id that no modifier has changes nothing but the pending-changes flag, which it
  sets. \<^verbatim>\<open>RemoveModifiersBySource\<close> with a source that no modifier has sets the flag too, and
  calls \<^verbatim>\<open>MarkDirty\<close> on the registered node of every aggregator, in the order of the
  aggregators, and changes nothing else: each of these nodes that exists is dirty
  afterwards, no field of a node other than its dirty flag differs, and when beforehand
  the children of every dirty node are dirty, the heap is the one obtained by marking
  these nodes and their transitive descendants dirty.
\<close>

theorem C9_not_found:
  "(GetNode gm i = None \<longrightarrow> SetNodeValue i v gm = (False, gm))
   \<and> (GetHistoryNode gm i = None \<longrightarrow> RecordDamage now i amount ty gm = gm)
   \<and> ((\<forall>(s, agg) \<in> set (m_modifiers gm). \<forall>m \<in> set agg. mod_id m \<noteq> i)
        \<longrightarrow> GM_RemoveModifier i gm = gm\<lparr>m_hasChanges := True\<rparr>)
   \<and> ((\<forall>(s, agg) \<in> set (m_modifiers gm). \<forall>m \<in> set agg. m_sourceId m \<noteq> i)
        \<longrightarrow> GM_RemoveModifiersBySource i gm
              = gm\<lparr>heap := MarkDirtyEach (aggregatorNodes gm) (heap gm), m_hasChanges := True\<rparr>
            \<and> set (aggregatorNodes gm) \<inter> fmdom' (heap gm)
                \<subseteq> dirtySet (heap (GM_RemoveModifiersBySource i gm))
            \<and> heap (GM_RemoveModifiersBySource i gm)
                = markEach (dirtySet (heap (GM_RemoveModifiersBySource i gm))) (heap gm)
            \<and> (downClosed (heap gm) \<longrightarrow>
                 heap (GM_RemoveModifiersBySource i gm)
                   = markEach (\<Union>a \<in> set (aggregatorNodes gm) \<inter> fmdom' (heap gm).
                                 {a} \<union> descendants (heap gm) a) (heap gm)))"
proof (intro conjI impI)
  assume "GetNode gm i = None"
  then show "SetNodeValue i v gm = (False, gm)" by (simp add: SetNodeValue_def)
next
  assume "GetHistoryNode gm i = None"
  then show "RecordDamage now i amount ty gm = gm" by (simp add: RecordDamage_def)
next
  assume a: "\<forall>(s, agg) \<in> set (m_modifiers gm). \<forall>m \<in> set agg. mod_id m \<noteq> i"
  have "map (\<lambda>(statId, aggregator). (statId, RemoveModifier i aggregator)) (m_modifiers gm)
      = m_modifiers gm"
    using a by (intro map_idI) (auto simp: RemoveModifier_unknown)
  then show "GM_RemoveModifier i gm = gm\<lparr>m_hasChanges := True\<rparr>"
    by (simp add: GM_RemoveModifier_def)
next
  assume a: "\<forall>(s, agg) \<in> set (m_modifiers gm). \<forall>m \<in> set agg. m_sourceId m \<noteq> i"
  show eq: "GM_RemoveModifiersBySource i gm
      = gm\<lparr>heap := MarkDirtyEach (aggregatorNodes gm) (heap gm), m_hasChanges := True\<rparr>"
    using RemoveModifiersBySource_loop_unmatched [OF a, of "m_nodes gm" "heap gm"]
    by (simp add: GM_RemoveModifiersBySource_def aggregatorNodes_def)
  have hp: "heap (GM_RemoveModifiersBySource i gm) = MarkDirtyEach (aggregatorNodes gm) (heap gm)"
    by (simp add: eq)
  show "set (aggregatorNodes gm) \<inter> fmdom' (heap gm)
          \<subseteq> dirtySet (heap (GM_RemoveModifiersBySource i gm))"
    unfolding hp using MarkDirtyEach_marks by blast
  show "heap (GM_RemoveModifiersBySource i gm)
          = markEach (dirtySet (heap (GM_RemoveModifiersBySource i gm))) (heap gm)"
    unfolding hp by (rule MarkDirtyEach_markEach)
  assume "downClosed (heap gm)"
  then show "heap (GM_RemoveModifiersBySource i gm)
       = markEach (\<Union>a \<in> set (aggregatorNodes gm) \<inter> fmdom' (heap gm).
                     {a} \<union> descendants (heap gm) a) (heap gm)"
    unfolding hp using MarkDirtyEach_downClosed by blast
qed

text \<open>
  The claim as stated fails on a new manager: \<^verbatim>\<open>RemoveModifier\<close> with an unknown id sets
  the pending-changes flag. It fails on \<open>exEquipped\<close> too: \<^verbatim>\<open>RemoveModifiersBySource\<close> with a
  source that no modifier has marks the clean node \<^verbatim>\<open>strength\<close> dirty.
\<close>

theorem C9_not_found_counterexample:
  "m_hasChanges (GM_RemoveModifier ''unknown'' (new_GraphManager :: (unit, unit) GraphManager))
     \<noteq> m_hasChanges (new_GraphManager :: (unit, unit) GraphManager)
   \<and> dirtySet (heap (GM_RemoveModifiersBySource ''unknown'' exEquipped))
     \<noteq> dirtySet (heap exEquipped)"
proof -
  have "heap (GM_RemoveModifiersBySource ''unknown'' exEquipped)
      = fmupd 0 ((new_StatNode ''strength'' ''Strength'' 10 Base)\<lparr>m_isDirty := True\<rparr>) fmempty"
    by (simp add: exEquipped_eq GM_RemoveModifiersBySource_def MarkDirty_def new_StatNode_def
        Let_def)
  then have "0 \<in> dirtySet (heap (GM_RemoveModifiersBySource ''unknown'' exEquipped))"
    by (simp add: dirtySet_def)
  then show ?thesis
    by (auto simp: GM_RemoveModifier_def new_GraphManager_def exEquipped_facts)
qed

theorem C9_not_found_witness:
  "SetNodeValue ''unknown'' 5 exEquipped = (False, exEquipped)
   \<and> RecordDamage 0 ''unknown'' 5 [] exEquipped = exEquipped
   \<and> GM_RemoveModifier ''unknown'' exEquipped = exEquipped\<lparr>m_hasChanges := True\<rparr>
   \<and> GM_RemoveModifiersBySource ''unknown'' exEquipped
       = exEquipped\<lparr>heap := markEach {0} (heap exEquipped), m_hasChanges := True\<rparr>
   \<and> dirtySet (heap exEquipped) = {}
   \<and> dirtySet (heap (GM_RemoveModifiersBySource ''unknown'' exEquipped)) = {0}"
proof -
  have m: "\<forall>(s, agg) \<in> set (m_modifiers exEquipped). \<forall>m \<in> set agg. mod_id m \<noteq> ''unknown''"
    "\<forall>(s, agg) \<in> set (m_modifiers exEquipped). \<forall>m \<in> set agg. m_sourceId m \<noteq> ''unknown''"
    by (simp_all add: exEquipped_eq new_Modifier_def)
  have dc: "downClosed (heap exEquipped)"
    by (simp add: downClosed_def exEquipped_facts)
  have d: "descendants (heap exEquipped) 0 = {}"
    by (simp add: descendants_def exEquipped_facts)
  note c = C9_not_found [of exEquipped "''unknown''" 5 0 5 "[]"]
  have 1: "SetNodeValue ''unknown'' 5 exEquipped = (False, exEquipped)"
    using c exEquipped_facts(1) by blast
  have 2: "RecordDamage 0 ''unknown'' 5 [] exEquipped = exEquipped"
    using c exEquipped_facts(2) by blast
  have 3: "GM_RemoveModifier ''unknown'' exEquipped = exEquipped\<lparr>m_hasChanges := True\<rparr>"
    using c m(1) by blast
  have 4: "GM_RemoveModifiersBySource ''unknown'' exEquipped
       = exEquipped\<lparr>heap := MarkDirtyEach (aggregatorNodes exEquipped) (heap exEquipped),
                     m_hasChanges := True\<rparr>"
    using c m(2) by blast
  have 5: "heap (GM_RemoveModifiersBySource ''unknown'' exEquipped)
       = markEach (\<Union>a \<in> set (aggregatorNodes exEquipped) \<inter> fmdom' (heap exEquipped).
                     {a} \<union> descendants (heap exEquipped) a) (heap exEquipped)"
    using c m(2) dc by blast
  have 6: "heap (GM_RemoveModifiersBySource ''unknown'' exEquipped) = markEach {0} (heap exEquipped)"
    unfolding 5 by (simp add: exEquipped_facts d)
  have 7: "GM_RemoveModifiersBySource ''unknown'' exEquipped
       = exEquipped\<lparr>heap := markEach {0} (heap exEquipped), m_hasChanges := True\<rparr>"
    using 4 6 by simp
  have 8: "dirtySet (heap (GM_RemoveModifiersBySource ''unknown'' exEquipped)) = {0}"
    unfolding 6 by (simp add: dirtySet_markEach exEquipped_facts)
  show ?thesis
    using 1 2 3 7 8 exEquipped_facts(5) by simp
qed

section \<open>Push and pull together: SetBaseValue\<close>

lemma ideal_unique:
  "ideal e now h a v \<Longrightarrow> ideal e now h a w \<Longrightarrow> v = w"
proof (induction arbitrary: w rule: ideal.induct)
  case (source a n)
  from source(3) show ?case
    using source(1,2) by (cases rule: ideal.cases) auto
next
  case (derived a n vs)
  from derived(4) show ?case
  proof (cases rule: ideal.cases)
    case (source m)
    then show ?thesis using derived(1,2) by simp
  next
    case (derived m ws)
    then have mn: "m = n" using \<open>fmlookup h a = Some n\<close> by simp
    have "list_all2 (\<lambda>p v. \<forall>w. ideal e now h p w \<longrightarrow> v = w) (inputs e h n) vs"
      using \<open>list_all2 (\<lambda>x1 x2. ideal e now h x1 x2 \<and> (\<forall>x. ideal e now h x1 x \<longrightarrow> x2 = x)) (inputs e h n) vs\<close>
      by (rule list_all2_mono) simp
    moreover have "list_all2 (ideal e now h) (inputs e h n) ws"
      using derived(4) mn by simp
    ultimately have "vs = ws"
      by (rule list_all2_unique)
    then show ?thesis using derived(1) mn by simp
  qed
qed

lemma pulled_ideal:
  assumes "coherent e now h"
  shows "pulled e now h a v \<Longrightarrow> ideal e now h a v"
proof (induction rule: pulled.induct)
  case (source a n)
  then show ?case by (rule ideal.source)
next
  case (cached a n)
  then show ?case using assms unfolding coherent_def by blast
next
  case (recomputed a n vs)
  have "list_all2 (ideal e now h) (inputs e h n) vs"
    using recomputed(4) by (rule list_all2_mono) simp
  then show ?case
    using recomputed(1,2) by (intro ideal.derived)
qed

lemma SetBaseValue_same: "fmlookup h a = Some n \<Longrightarrow> SetBaseValue a (m_baseValue n) h = h"
  by (simp add: SetBaseValue_def)

lemma SetBaseValue_form:
  assumes "fmlookup h a = Some n" and "m_baseValue n \<noteq> v"
  obtains n2 where "m_baseValue n2 = v" and "m_type n2 = m_type n"
    and "m_children n2 = m_children n" and "m_isDirty n2 = m_isDirty n"
    and "parentsOf n2 = parentsOf n"
    and "SetBaseValue a v h = InvalidateChildren (fmupd a n2 h) (m_children n)"
proof -
  let ?n1 = "n\<lparr>m_baseValue := v\<rparr>"
  let ?n2 = "if m_type ?n1 = Base \<or> m_type ?n1 = History then ?n1\<lparr>m_cachedValue := v\<rparr> else ?n1"
  have "SetBaseValue a v h = InvalidateChildren (fmupd a ?n2 h) (m_children n)"
    using assms by (simp add: SetBaseValue_def Let_def)
  moreover have "m_baseValue ?n2 = v" "m_type ?n2 = m_type n" "m_children ?n2 = m_children n"
    "m_isDirty ?n2 = m_isDirty n" "parentsOf ?n2 = parentsOf n"
    by (simp_all add: parentsOf_def)
  ultimately show ?thesis using that by blast
qed

lemma upd_same_graph:
  assumes "fmlookup h a = Some n" and "m_children n2 = m_children n" and "m_isDirty n2 = m_isDirty n"
  shows "childEdges (fmupd a n2 h) = childEdges h"
    and "dirtySet (fmupd a n2 h) = dirtySet h"
    and "fmdom' (fmupd a n2 h) = fmdom' h"
proof -
  show d: "fmdom' (fmupd a n2 h) = fmdom' h"
    using assms(1) by (auto simp: fmlookup_dom'_iff)
  show "dirtySet (fmupd a n2 h) = dirtySet h"
    using assms(1,3) by (auto simp: dirtySet_def)
  have "(x, c) \<in> childEdges (fmupd a n2 h) \<longleftrightarrow> (x, c) \<in> childEdges h" for x c
    unfolding childEdges_def d using assms(1,2) by (cases "x = a") auto
  then show "childEdges (fmupd a n2 h) = childEdges h" by auto
qed

lemma InvalidateChildren_frame:
  assumes "b \<notin> {x. \<exists>c \<in> set cs. c \<in> fmdom' h \<and> (c, x) \<in> (childEdges h)\<^sup>*}"
  shows "fmlookup (InvalidateChildren h cs) b = fmlookup h b"
proof -
  let ?h' = "InvalidateChildren h cs"
  have s: "swept h cs ?h'" by (rule InvalidateChildren_swept)
  have m: "?h' = markEach (dirtySet ?h') h" by (rule InvalidateChildren_markEach)
  show ?thesis
  proof (cases "fmlookup h b")
    case None
    then show ?thesis by (subst m) (simp add: lookup_markEach)
  next
    case (Some nb)
    have "b \<in> dirtySet ?h' \<Longrightarrow> b \<in> dirtySet h"
      using s assms unfolding swept_def by blast
    then have "b \<in> dirtySet ?h' \<Longrightarrow> m_isDirty nb"
      using Some by (auto simp: dirtySet_def)
    then show ?thesis
      using Some by (subst m) (auto simp: lookup_markEach)
  qed
qed

lemma SetBaseValue_frame:
  assumes "fmlookup h a = Some n" and "b \<noteq> a" and "b \<notin> descendants h a"
  shows "fmlookup (SetBaseValue a v h) b = fmlookup h b"
proof (cases "m_baseValue n = v")
  case True
  then show ?thesis using SetBaseValue_same [OF assms(1)] by simp
next
  case False
  obtain n2 where n2: "m_children n2 = m_children n" "m_isDirty n2 = m_isDirty n"
    and f: "SetBaseValue a v h = InvalidateChildren (fmupd a n2 h) (m_children n)"
    using SetBaseValue_form [OF assms(1) False] by metis
  have g: "childEdges (fmupd a n2 h) = childEdges h" "fmdom' (fmupd a n2 h) = fmdom' h"
    using upd_same_graph [OF assms(1) n2] by simp_all
  have "b \<notin> {x. \<exists>c \<in> set (m_children n). c \<in> fmdom' (fmupd a n2 h)
      \<and> (c, x) \<in> (childEdges (fmupd a n2 h))\<^sup>*}"
    unfolding g using assms(3) descendants_children [OF assms(1)] by simp
  then have "fmlookup (SetBaseValue a v h) b = fmlookup (fmupd a n2 h) b"
    unfolding f by (rule InvalidateChildren_frame)
  then show ?thesis using assms(2) by simp
qed

lemma SetBaseValue_dirtySet:
  assumes "fmlookup h a = Some n" and "m_baseValue n \<noteq> v" and "downClosed h"
  shows "dirtySet (SetBaseValue a v h) = dirtySet h \<union> descendants h a
    \<and> downClosed (SetBaseValue a v h)"
proof -
  obtain n2 where n2: "m_children n2 = m_children n" "m_isDirty n2 = m_isDirty n"
    and f: "SetBaseValue a v h = InvalidateChildren (fmupd a n2 h) (m_children n)"
    using SetBaseValue_form [OF assms(1,2)] by metis
  let ?h1 = "fmupd a n2 h"
  have g: "childEdges ?h1 = childEdges h" "dirtySet ?h1 = dirtySet h" "fmdom' ?h1 = fmdom' h"
    using upd_same_graph [OF assms(1) n2] by simp_all
  have pre: "\<forall>(x, c) \<in> childEdges ?h1. x \<in> dirtySet ?h1 \<longrightarrow> c \<in> dirtySet ?h1 \<or> c \<in> set (m_children n)"
    unfolding g using assms(3) unfolding downClosed_def by blast
  have "dirtySet (SetBaseValue a v h) = dirtySet h \<union> descendants h a"
    unfolding f using InvalidateChildren_dirtySet [OF pre] descendants_children [OF assms(1)]
    unfolding g by simp
  moreover have "downClosed (SetBaseValue a v h)"
    unfolding f downClosed_def InvalidateChildren_childEdges
    by (rule InvalidateChildren_closed [OF pre])
  ultimately show ?thesis ..
qed

lemma SetBaseValue_self:
  assumes "fmlookup h a = Some n" and "m_baseValue n \<noteq> v"
  shows "\<exists>n'. fmlookup (SetBaseValue a v h) a = Some n' \<and> m_baseValue n' = v
           \<and> m_type n' = m_type n \<and> parentsOf n' = parentsOf n"
proof -
  obtain n2 where n2: "m_baseValue n2 = v" "m_type n2 = m_type n" "parentsOf n2 = parentsOf n"
    and f: "SetBaseValue a v h = InvalidateChildren (fmupd a n2 h) (m_children n)"
    using SetBaseValue_form [OF assms(1,2)] by metis
  let ?h1 = "fmupd a n2 h"
  have m: "SetBaseValue a v h = markEach (dirtySet (SetBaseValue a v h)) ?h1"
    unfolding f by (rule InvalidateChildren_markEach)
  have "fmlookup (SetBaseValue a v h) a
      = Some (if a \<in> dirtySet (SetBaseValue a v h) then n2\<lparr>m_isDirty := True\<rparr> else n2)"
    by (subst m) (simp add: lookup_markEach)
  then show ?thesis
    using n2 by (auto simp: parentsOf_def)
qed

lemma SetBaseValue_parentsOf:
  assumes "fmlookup (SetBaseValue a v h) b = Some n'"
  obtains nb where "fmlookup h b = Some nb" and "parentsOf n' = parentsOf nb"
proof (cases "fmlookup h a")
  case None
  then have "SetBaseValue a v h = h" by (simp add: SetBaseValue_def)
  then show ?thesis using assms that by simp
next
  case (Some n)
  show ?thesis
  proof (cases "m_baseValue n = v")
    case True
    then have "SetBaseValue a v h = h" using SetBaseValue_same [OF Some] by simp
    then show ?thesis using assms that by simp
  next
    case False
    obtain n2 where n2: "parentsOf n2 = parentsOf n"
      and f: "SetBaseValue a v h = InvalidateChildren (fmupd a n2 h) (m_children n)"
      using SetBaseValue_form [OF Some False] by metis
    let ?h1 = "fmupd a n2 h"
    have m: "SetBaseValue a v h = markEach (dirtySet (SetBaseValue a v h)) ?h1"
      unfolding f by (rule InvalidateChildren_markEach)
    obtain n1 where n1: "fmlookup ?h1 b = Some n1" and p: "parentsOf n' = parentsOf n1"
      using assms by (subst (asm) m) (auto simp: lookup_markEach parentsOf_def split: if_splits)
    show ?thesis
    proof (cases "b = a")
      case True
      then show ?thesis using that [OF _ _] Some n1 p n2 by simp
    next
      case False
      then show ?thesis using that n1 p by simp
    qed
  qed
qed

lemma ranked_SetBaseValue:
  assumes "ranked r h"
  shows "ranked r (SetBaseValue a v h)"
  unfolding ranked_def
proof (intro allI impI)
  fix b n' assume "fmlookup (SetBaseValue a v h) b = Some n'"
  then obtain nb where "fmlookup h b = Some nb" "parentsOf n' = parentsOf nb"
    by (rule SetBaseValue_parentsOf)
  then show "\<forall>p \<in> set (parentsOf n'). r p < r b"
    using assms unfolding ranked_def by simp
qed

lemma SetBaseValue_fmdom': "fmdom' (SetBaseValue a v h) = fmdom' h"
proof (cases "fmlookup h a")
  case None
  then show ?thesis by (simp add: SetBaseValue_def)
next
  case (Some n)
  show ?thesis
  proof (cases "m_baseValue n = v")
    case True
    then show ?thesis using SetBaseValue_same [OF Some] by simp
  next
    case False
    obtain n2 where n2: "m_children n2 = m_children n" "m_isDirty n2 = m_isDirty n"
      and f: "SetBaseValue a v h = InvalidateChildren (fmupd a n2 h) (m_children n)"
      using SetBaseValue_form [OF Some False] by metis
    show ?thesis
      unfolding f InvalidateChildren_fmdom' by (rule upd_same_graph(3) [OF Some n2])
  qed
qed

lemma inputs_subset: "set (inputs e h n) \<subseteq> set (parentsOf n) \<inter> fmdom' h"
  using contributors_subset [of e n] by (auto simp: inputs_def)

lemma calcOf_flags:
  "calcOf now (n\<lparr>m_cachedValue := w\<rparr>) = calcOf now n"
  "calcOf now (n\<lparr>m_isDirty := b\<rparr>) = calcOf now n"
  by (rule ext, simp add: calcOf_def applyCalc_def split: option.splits)+

lemma contributors_flags:
  "contributors e (n\<lparr>m_cachedValue := w\<rparr>) = contributors e n"
  "contributors e (n\<lparr>m_isDirty := b\<rparr>) = contributors e n"
  by (simp_all add: contributors_def)

lemma ideal_transfer:
  assumes node: "\<And>x n. fmlookup h x = Some n \<Longrightarrow> x \<in> G \<Longrightarrow>
        \<exists>n'. fmlookup h' x = Some n' \<and> m_type n' = m_type n \<and> m_baseValue n' = m_baseValue n
           \<and> contributors e n' = contributors e n \<and> calcOf now n' = calcOf now n"
    and dom: "fmdom' h' = fmdom' h"
    and up: "\<And>x n p. fmlookup h x = Some n \<Longrightarrow> m_type n = Derived \<Longrightarrow> x \<in> G
        \<Longrightarrow> p \<in> set (inputs e h n) \<Longrightarrow> p \<in> G"
  shows "ideal e now h x w \<Longrightarrow> x \<in> G \<Longrightarrow> ideal e now h' x w"
proof (induction rule: ideal.induct)
  case (source a n)
  obtain n' where n': "fmlookup h' a = Some n'" "m_type n' = m_type n"
    "m_baseValue n' = m_baseValue n"
    using node [OF source(1) source(3)] by blast
  have "m_type n' \<noteq> Derived" using n'(2) source(2) by simp
  with n'(1) have "ideal e now h' a (m_baseValue n')" by (rule ideal.source)
  then show ?case by (simp add: n'(3))
next
  case (derived a n vs)
  obtain n' where n': "fmlookup h' a = Some n'" "m_type n' = m_type n"
    "contributors e n' = contributors e n" "calcOf now n' = calcOf now n"
    using node [OF derived(1) derived(4)] by blast
  have i: "inputs e h' n' = inputs e h n" by (simp add: inputs_def dom n'(3))
  have t: "m_type n' = Derived" using n'(2) derived(2) by simp
  have "list_all2 (ideal e now h') (inputs e h n) vs"
    using derived(3)
  proof (rule list.rel_mono_strong)
    fix p v assume "p \<in> set (inputs e h n)"
      and "ideal e now h p v \<and> (p \<in> G \<longrightarrow> ideal e now h' p v)"
    then show "ideal e now h' p v"
      using up [OF derived(1,2,4)] by blast
  qed
  then have "list_all2 (ideal e now h') (inputs e h' n') vs" by (simp only: i)
  with n'(1) t have "ideal e now h' a (calcOf now n' vs)" by (rule ideal.derived)
  then show ?case by (simp add: n'(4))
qed

lemma cachedFrom_fields:
  assumes "cachedFrom e now h h'" and "fmlookup h x = Some n"
  shows "\<exists>n'. fmlookup h' x = Some n' \<and> m_type n' = m_type n \<and> m_baseValue n' = m_baseValue n
           \<and> contributors e n' = contributors e n \<and> calcOf now n' = calcOf now n"
proof -
  obtain n' where n': "fmlookup h' x = Some n'"
    using cachedFrom_None [OF assms(1), of x] assms(2) by (cases "fmlookup h' x") auto
  obtain m where m: "fmlookup h x = Some m"
    and r: "n' = m \<or> (m_type m = Derived \<and> m_isDirty m \<and>
            (\<exists>w. pulled e now h x w \<and> n' = m\<lparr>m_cachedValue := w, m_isDirty := False\<rparr>))"
    using cachedFrom_Some [OF assms(1) n'] by blast
  have mn: "m = n" using m assms(2) by simp
  from r have "m_type n' = m_type n \<and> m_baseValue n' = m_baseValue n
           \<and> contributors e n' = contributors e n \<and> calcOf now n' = calcOf now n"
    unfolding mn by (auto simp: calcOf_flags contributors_flags)
  with n' show ?thesis by blast
qed

lemma cachedFrom_fields_back:
  assumes "cachedFrom e now h h'" and "fmlookup h' x = Some n'"
  shows "\<exists>n. fmlookup h x = Some n \<and> m_type n = m_type n' \<and> m_baseValue n = m_baseValue n'
           \<and> contributors e n = contributors e n' \<and> calcOf now n = calcOf now n'"
proof -
  obtain n where n: "fmlookup h x = Some n"
    and r: "n' = n \<or> (m_type n = Derived \<and> m_isDirty n \<and>
            (\<exists>w. pulled e now h x w \<and> n' = n\<lparr>m_cachedValue := w, m_isDirty := False\<rparr>))"
    using cachedFrom_Some [OF assms] by blast
  from r have "m_type n = m_type n' \<and> m_baseValue n = m_baseValue n'
           \<and> contributors e n = contributors e n' \<and> calcOf now n = calcOf now n'"
    by (auto simp: calcOf_flags contributors_flags)
  with n show ?thesis by blast
qed

lemma ideal_cachedFrom:
  assumes c: "cachedFrom e now h h'"
  shows "ideal e now h' x w \<longleftrightarrow> ideal e now h x w"
proof
  assume i: "ideal e now h' x w"
  show "ideal e now h x w"
  proof (rule ideal_transfer [where G = UNIV and h = h' and h' = h])
    show "ideal e now h' x w" by (rule i)
    show "fmdom' h = fmdom' h'" using cachedFrom_dom [OF c] by simp
    show "\<And>y n. fmlookup h' y = Some n \<Longrightarrow> y \<in> UNIV \<Longrightarrow>
        \<exists>n'. fmlookup h y = Some n' \<and> m_type n' = m_type n \<and> m_baseValue n' = m_baseValue n
           \<and> contributors e n' = contributors e n \<and> calcOf now n' = calcOf now n"
      by (rule cachedFrom_fields_back [OF c])
  qed simp_all
next
  assume i: "ideal e now h x w"
  show "ideal e now h' x w"
  proof (rule ideal_transfer [where G = UNIV and h = h and h' = h'])
    show "ideal e now h x w" by (rule i)
    show "fmdom' h' = fmdom' h" by (rule cachedFrom_dom [OF c])
    show "\<And>y n. fmlookup h y = Some n \<Longrightarrow> y \<in> UNIV \<Longrightarrow>
        \<exists>n'. fmlookup h' y = Some n' \<and> m_type n' = m_type n \<and> m_baseValue n' = m_baseValue n
           \<and> contributors e n' = contributors e n \<and> calcOf now n' = calcOf now n"
      by (rule cachedFrom_fields [OF c])
  qed simp_all
qed

lemma cachedFrom_coherent:
  assumes co: "coherent e now h" and c: "cachedFrom e now h h'"
  shows "coherent e now h'"
  unfolding coherent_def
proof (intro allI impI, elim conjE)
  fix a n' assume a: "fmlookup h' a = Some n'" "m_type n' = Derived" "\<not> m_isDirty n'"
  obtain n where n: "fmlookup h a = Some n"
    and r: "n' = n \<or> (m_type n = Derived \<and> m_isDirty n \<and>
            (\<exists>w. pulled e now h a w \<and> n' = n\<lparr>m_cachedValue := w, m_isDirty := False\<rparr>))"
    using cachedFrom_Some [OF c a(1)] by blast
  have "ideal e now h a (m_cachedValue n')"
  proof (cases "n' = n")
    case True
    then show ?thesis using co n a(2,3) unfolding coherent_def by blast
  next
    case False
    then obtain w where w: "pulled e now h a w" "n' = n\<lparr>m_cachedValue := w, m_isDirty := False\<rparr>"
      using r by blast
    have "ideal e now h a w" using w(1) by (rule pulled_ideal [OF co])
    then show ?thesis using w(2) by simp
  qed
  then show "ideal e now h' a (m_cachedValue n')"
    by (simp only: ideal_cachedFrom [OF c])
qed

lemma pullSequence_ideal:
  "coherent e now h \<Longrightarrow> pullSequence e now h ps = Some (ws, h2)
     \<Longrightarrow> list_all2 (ideal e now h) (map snd ps) ws \<and> coherent e now h2 \<and> cachedFrom e now h h2"
proof (induction ps arbitrary: h ws)
  case Nil
  then show ?case by (simp add: cachedFrom_refl)
next
  case (Cons x ps)
  obtain k d where x: "x = (k, d)" by (cases x)
  obtain w h1 where g: "GetValue k e now h d = Some (w, h1)"
    using Cons.prems(2) unfolding x by (cases "GetValue k e now h d") auto
  obtain ws' where s: "pullSequence e now h1 ps = Some (ws', h2)" and ws: "ws = w # ws'"
    using Cons.prems(2) g unfolding x by (cases "pullSequence e now h1 ps") auto
  have p: "pulled e now h d w" and c: "cachedFrom e now h h1"
    using GetValue_pulled [OF g] by simp_all
  have co1: "coherent e now h1"
    using Cons.prems(1) c by (rule cachedFrom_coherent)
  have ih: "list_all2 (ideal e now h1) (map snd ps) ws'" "coherent e now h2" "cachedFrom e now h1 h2"
    using Cons.IH [OF co1 s] by simp_all
  have "list_all2 (ideal e now h) (map snd ps) ws'"
    using ih(1) by (rule list_all2_mono) (simp only: ideal_cachedFrom [OF c])
  moreover have "ideal e now h d w"
    using p by (rule pulled_ideal [OF Cons.prems(1)])
  moreover have "cachedFrom e now h h2"
    using c ih(3) by (rule cachedFrom_trans)
  ultimately show ?case
    using ih(2) by (simp add: x ws)
qed

lemma pullSequence_returns:
  "ranked r h \<Longrightarrow> set ds \<subseteq> fmdom' h
     \<Longrightarrow> \<exists>ws h2. pullSequence e now h (map (\<lambda>d. (Suc (r d), d)) ds) = Some (ws, h2)"
proof (induction ds arbitrary: h)
  case Nil
  show ?case by simp
next
  case (Cons d ds)
  have "d \<in> fmdom' h" using Cons.prems(2) by simp
  then obtain w h1 where g: "GetValue (Suc (r d)) e now h d = Some (w, h1)"
    using GetValue_returns [OF Cons.prems(1), of d "Suc (r d)" e now] by auto
  have c: "cachedFrom e now h h1"
    using GetValue_pulled [OF g] by simp
  have "ranked r h1" using Cons.prems(1) c by (rule ranked_cachedFrom)
  moreover have "set ds \<subseteq> fmdom' h1"
    using Cons.prems(2) cachedFrom_dom [OF c] by simp
  ultimately obtain ws h2
    where "pullSequence e now h1 (map (\<lambda>d. (Suc (r d), d)) ds) = Some (ws, h2)"
    using Cons.IH by blast
  then show ?case using g by simp
qed

lemma cachedFrom_settled:
  assumes c: "cachedFrom e now h h'"
    and s: "\<forall>np. fmlookup h p = Some np \<and> m_type np = Derived \<longrightarrow> \<not> m_isDirty np"
  shows "\<forall>np. fmlookup h' p = Some np \<and> m_type np = Derived \<longrightarrow> \<not> m_isDirty np"
proof (intro allI impI, elim conjE)
  fix np assume p: "fmlookup h' p = Some np" "m_type np = Derived"
  obtain n where n: "fmlookup h p = Some n"
    and r: "np = n \<or> (m_type n = Derived \<and> m_isDirty n \<and>
            (\<exists>w. pulled e now h p w \<and> np = n\<lparr>m_cachedValue := w, m_isDirty := False\<rparr>))"
    using cachedFrom_Some [OF c p(1)] by blast
  from r show "\<not> m_isDirty np"
    using s n p(2) by auto
qed

lemma cachedFrom_childEdges:
  assumes c: "cachedFrom e now h h'"
  shows "childEdges h' = childEdges h"
proof -
  have d: "fmdom' h' = fmdom' h" by (rule cachedFrom_dom [OF c])
  have "(x, y) \<in> childEdges h' \<longleftrightarrow> (x, y) \<in> childEdges h" for x y
  proof
    assume "(x, y) \<in> childEdges h'"
    then obtain n' where n': "fmlookup h' x = Some n'" "y \<in> set (m_children n')" "y \<in> fmdom' h'"
      by (auto simp: childEdges_def)
    obtain n where n: "fmlookup h x = Some n"
      and r: "n' = n \<or> (m_type n = Derived \<and> m_isDirty n \<and>
            (\<exists>w. pulled e now h x w \<and> n' = n\<lparr>m_cachedValue := w, m_isDirty := False\<rparr>))"
      using cachedFrom_Some [OF c n'(1)] by blast
    from r have "m_children n' = m_children n" by auto
    then show "(x, y) \<in> childEdges h"
      using n n'(2,3) d by (auto simp: childEdges_def)
  next
    assume "(x, y) \<in> childEdges h"
    then obtain n where n: "fmlookup h x = Some n" "y \<in> set (m_children n)" "y \<in> fmdom' h"
      by (auto simp: childEdges_def)
    obtain n' where n': "fmlookup h' x = Some n'"
      using cachedFrom_None [OF c, of x] n(1) by (cases "fmlookup h' x") auto
    obtain m where m: "fmlookup h x = Some m"
      and r: "n' = m \<or> (m_type m = Derived \<and> m_isDirty m \<and>
            (\<exists>w. pulled e now h x w \<and> n' = m\<lparr>m_cachedValue := w, m_isDirty := False\<rparr>))"
      using cachedFrom_Some [OF c n'] by blast
    from r have "m_children n' = m_children m" by auto
    then show "(x, y) \<in> childEdges h'"
      using m n n' d by (auto simp: childEdges_def)
  qed
  then show ?thesis by auto
qed

lemma cachedFrom_wellLinked:
  assumes wl: "wellLinked h" and c: "cachedFrom e now h h'"
  shows "wellLinked h'"
  unfolding wellLinked_def cachedFrom_childEdges [OF c] cachedFrom_dom [OF c]
proof (intro allI impI ballI)
  fix x n' p
  assume "fmlookup h' x = Some n'" and p: "p \<in> set (parentsOf n')" "p \<in> fmdom' h"
  then obtain n where "fmlookup h x = Some n" "parentsOf n' = parentsOf n"
    using cachedFrom_parentsOf [OF c] by blast
  then show "(p, x) \<in> childEdges h"
    using wl p unfolding wellLinked_def by auto
qed

lemma pullParents_settles:
  assumes g: "\<And>h p v h'. g h p = Some (v, h') \<Longrightarrow> inputClosed e h
      \<Longrightarrow> cachedFrom e now h h' \<and> inputClosed e h'
          \<and> (\<forall>np. fmlookup h' p = Some np \<and> m_type np = Derived \<longrightarrow> \<not> m_isDirty np)"
  shows "pullParents g h ps = Some (vs, h2) \<Longrightarrow> inputClosed e h
     \<Longrightarrow> cachedFrom e now h h2 \<and> inputClosed e h2
         \<and> (\<forall>p \<in> set ps. \<forall>np. fmlookup h2 p = Some np \<and> m_type np = Derived \<longrightarrow> \<not> m_isDirty np)"
proof (induction ps arbitrary: h vs)
  case Nil
  then show ?case by (simp add: cachedFrom_refl)
next
  case (Cons p ps)
  show ?case
  proof (cases "fmlookup h p")
    case None
    then have rest: "pullParents g h ps = Some (vs, h2)" using Cons.prems(1) by simp
    note ih = Cons.IH [OF rest Cons.prems(2)]
    have "fmlookup h2 p = None"
      using cachedFrom_None [of e now h h2 p] ih None by simp
    then show ?thesis using ih by simp
  next
    case (Some n)
    obtain v h1 where gp: "g h p = Some (v, h1)"
      using Cons.prems(1) Some by (cases "g h p") auto
    obtain vs' where rest: "pullParents g h1 ps = Some (vs', h2)"
      using Cons.prems(1) Some gp by (cases "pullParents g h1 ps") auto
    have g1: "cachedFrom e now h h1" "inputClosed e h1"
      "\<forall>np. fmlookup h1 p = Some np \<and> m_type np = Derived \<longrightarrow> \<not> m_isDirty np"
      using g [OF gp Cons.prems(2)] by simp_all
    have ih: "cachedFrom e now h1 h2" "inputClosed e h2"
      "\<forall>q \<in> set ps. \<forall>np. fmlookup h2 q = Some np \<and> m_type np = Derived \<longrightarrow> \<not> m_isDirty np"
      using Cons.IH [OF rest g1(2)] by simp_all
    have "cachedFrom e now h h2" using g1(1) ih(1) by (rule cachedFrom_trans)
    moreover have "\<forall>np. fmlookup h2 p = Some np \<and> m_type np = Derived \<longrightarrow> \<not> m_isDirty np"
      using ih(1) g1(3) by (rule cachedFrom_settled)
    ultimately show ?thesis using ih(2,3) by simp
  qed
qed

lemma GetValue_inputClosed:
  "GetValue k e now h a = Some (v, h') \<Longrightarrow> inputClosed e h
     \<Longrightarrow> inputClosed e h'
         \<and> (\<forall>na. fmlookup h' a = Some na \<and> m_type na = Derived \<longrightarrow> \<not> m_isDirty na)"
proof (induction k arbitrary: h a v h')
  case 0
  then show ?case by (simp add: GetValue.simps)
next
  case (Suc k)
  obtain n where n: "fmlookup h a = Some n"
    using Suc.prems(1) GetValue_None [of h a "Suc k" e now] by (cases "fmlookup h a") auto
  consider (source) "m_type n \<noteq> Derived" | (clean) "m_type n = Derived" "\<not> m_isDirty n"
    | (dirty) "m_type n = Derived" "m_isDirty n" by blast
  then show ?case
  proof cases
    case source
    then show ?thesis
      using Suc.prems GetValue_source [OF n source, of k e now] n by auto
  next
    case clean
    then show ?thesis
      using Suc.prems GetValue_clean [OF n clean, of k e now] n by auto
  next
    case dirty
    obtain vs h2 where pp: "pullParents (GetValue k e now) h (contributors e n) = Some (vs, h2)"
      and v: "v = calcOf now n vs"
      and h': "h' = modify a (\<lambda>m. m\<lparr>m_cachedValue := calcOf now n vs, m_isDirty := False\<rparr>) h2"
      using Suc.prems(1) unfolding GetValue_dirty [OF n dirty]
      by (cases "pullParents (GetValue k e now) h (contributors e n)") auto
    have g: "cachedFrom e now h1 h1' \<and> inputClosed e h1'
          \<and> (\<forall>np. fmlookup h1' p = Some np \<and> m_type np = Derived \<longrightarrow> \<not> m_isDirty np)"
      if "GetValue k e now h1 p = Some (w, h1')" "inputClosed e h1" for h1 p w h1'
      using Suc.IH [OF that] GetValue_pulled [OF that(1)] by simp
    have s: "cachedFrom e now h h2" "inputClosed e h2"
      "\<forall>p \<in> set (contributors e n). \<forall>np. fmlookup h2 p = Some np \<and> m_type np = Derived
          \<longrightarrow> \<not> m_isDirty np"
      using pullParents_settles [of "GetValue k e now" e now h "contributors e n" vs h2,
          OF g pp Suc.prems(2)]
      by simp_all
    obtain n2 where n2: "fmlookup h2 a = Some n2"
      using cachedFrom_None [OF s(1), of a] n by (cases "fmlookup h2 a") auto
    obtain m where m: "fmlookup h a = Some m"
      and r: "n2 = m \<or> (m_type m = Derived \<and> m_isDirty m \<and>
            (\<exists>w. pulled e now h a w \<and> n2 = m\<lparr>m_cachedValue := w, m_isDirty := False\<rparr>))"
      using cachedFrom_Some [OF s(1) n2] by blast
    have mn: "m = n" using m n by simp
    let ?n' = "n\<lparr>m_cachedValue := v, m_isDirty := False\<rparr>"
    have "n2\<lparr>m_cachedValue := v, m_isDirty := False\<rparr> = ?n'"
      using r mn by auto
    then have h'': "h' = fmupd a ?n' h2"
      unfolding h' modify_Some [OF n2] using v by simp
    have dom: "fmdom' h' = fmdom' h2"
      unfolding h'' using n2 by (auto simp: fmlookup_dom'_iff)
    have c2: "contributors e n2 = contributors e n"
      using r mn by (auto simp: contributors_def)
    have "inputClosed e h'"
      unfolding inputClosed_def
    proof (intro allI impI, elim conjE)
      fix x nx p np
      assume x: "fmlookup h' x = Some nx" "m_type nx = Derived" "\<not> m_isDirty nx"
        and p: "p \<in> set (inputs e h' nx)" "fmlookup h' p = Some np" "m_type np = Derived"
      show "\<not> m_isDirty np"
      proof (cases "p = a")
        case True
        then show ?thesis using p(2) unfolding h'' by auto
      next
        case False
        then have lp: "fmlookup h2 p = Some np" using p(2) unfolding h'' by simp
        show ?thesis
        proof (cases "x = a")
          case True
          then have "nx = ?n'" using x(1) unfolding h'' by simp
          then have "p \<in> set (contributors e n)"
            using p(1) by (auto simp: inputs_def contributors_def)
          then show ?thesis using s(3) lp p(3) by blast
        next
          case False
          then have lx: "fmlookup h2 x = Some nx" using x(1) unfolding h'' by simp
          have "p \<in> set (inputs e h2 nx)" using p(1) by (simp add: inputs_def dom)
          then show ?thesis
            using s(2) lx x(2,3) lp p(3) unfolding inputClosed_def by blast
        qed
      qed
    qed
    moreover have "\<forall>na. fmlookup h' a = Some na \<and> m_type na = Derived \<longrightarrow> \<not> m_isDirty na"
      unfolding h'' by simp
    ultimately show ?thesis ..
  qed
qed

lemma pullSequence_invariant:
  "wellLinked h \<Longrightarrow> inputClosed e h \<Longrightarrow> pullSequence e now h ps = Some (ws, h2)
     \<Longrightarrow> wellLinked h2 \<and> inputClosed e h2"
proof (induction ps arbitrary: h ws)
  case Nil
  then show ?case by simp
next
  case (Cons x ps)
  obtain k d where x: "x = (k, d)" by (cases x)
  obtain w h1 where g: "GetValue k e now h d = Some (w, h1)"
    using Cons.prems(3) unfolding x by (cases "GetValue k e now h d") auto
  obtain ws' where s: "pullSequence e now h1 ps = Some (ws', h2)"
    using Cons.prems(3) g unfolding x by (cases "pullSequence e now h1 ps") auto
  have c: "cachedFrom e now h h1"
    using GetValue_pulled [OF g] by simp
  have "wellLinked h1" using Cons.prems(1) c by (rule cachedFrom_wellLinked)
  moreover have "inputClosed e h1" using GetValue_inputClosed [OF g Cons.prems(2)] by simp
  ultimately show ?case using s by (rule Cons.IH)
qed


lemma SetBaseValue_childEdges: "childEdges (SetBaseValue a v h) = childEdges h"
proof (cases "fmlookup h a")
  case None
  then show ?thesis by (simp add: SetBaseValue_def)
next
  case (Some n)
  show ?thesis
  proof (cases "m_baseValue n = v")
    case True
    then show ?thesis using SetBaseValue_same [OF Some] by simp
  next
    case False
    obtain n2 where n2: "m_children n2 = m_children n" "m_isDirty n2 = m_isDirty n"
      and f: "SetBaseValue a v h = InvalidateChildren (fmupd a n2 h) (m_children n)"
      using SetBaseValue_form [OF Some False] by metis
    show ?thesis
      unfolding f InvalidateChildren_childEdges by (rule upd_same_graph(1) [OF Some n2])
  qed
qed

lemma SetBaseValue_swept:
  assumes n: "fmlookup h a = Some n" and v: "m_baseValue n \<noteq> v"
  shows "dirtySet h \<subseteq> dirtySet (SetBaseValue a v h)"
    and "\<And>c. (a, c) \<in> childEdges h \<Longrightarrow> c \<in> dirtySet (SetBaseValue a v h)"
    and "\<And>p c. p \<in> dirtySet (SetBaseValue a v h) \<Longrightarrow> p \<notin> dirtySet h \<Longrightarrow> (p, c) \<in> childEdges h
           \<Longrightarrow> c \<in> dirtySet (SetBaseValue a v h)"
    and "\<And>x. x \<noteq> a \<Longrightarrow> fmlookup (SetBaseValue a v h) x
           = map_option (\<lambda>m. if x \<in> dirtySet (SetBaseValue a v h) then m\<lparr>m_isDirty := True\<rparr> else m)
               (fmlookup h x)"
proof -
  let ?h' = "SetBaseValue a v h"
  obtain n2 where n2: "m_children n2 = m_children n" "m_isDirty n2 = m_isDirty n"
    and f: "?h' = InvalidateChildren (fmupd a n2 h) (m_children n)"
    using SetBaseValue_form [OF n v] by metis
  let ?h1 = "fmupd a n2 h"
  have g: "childEdges ?h1 = childEdges h" "dirtySet ?h1 = dirtySet h" "fmdom' ?h1 = fmdom' h"
    using upd_same_graph [OF n n2] by simp_all
  have "swept ?h1 (m_children n) (InvalidateChildren ?h1 (m_children n))"
    by (rule InvalidateChildren_swept)
  then have s: "\<forall>c \<in> set (m_children n). c \<in> fmdom' h \<longrightarrow> c \<in> dirtySet ?h'"
    "\<forall>p c. p \<in> dirtySet ?h' \<and> p \<notin> dirtySet h \<and> (p, c) \<in> childEdges h \<longrightarrow> c \<in> dirtySet ?h'"
    unfolding swept_def g f [symmetric] by simp_all
  show "dirtySet h \<subseteq> dirtySet ?h'"
    using InvalidateChildren_dirty_mono [of ?h1 "m_children n"] unfolding g f [symmetric] .
  show "c \<in> dirtySet ?h'" if "(a, c) \<in> childEdges h" for c
    using that s(1) n by (auto simp: childEdges_def)
  show "c \<in> dirtySet ?h'" if "p \<in> dirtySet ?h'" "p \<notin> dirtySet h" "(p, c) \<in> childEdges h" for p c
    using that s(2) by blast
  have m: "?h' = markEach (dirtySet ?h') ?h1"
    unfolding f by (rule InvalidateChildren_markEach)
  show "fmlookup ?h' x = map_option (\<lambda>m. if x \<in> dirtySet ?h' then m\<lparr>m_isDirty := True\<rparr> else m)
          (fmlookup h x)" if "x \<noteq> a" for x
    using that by (subst m) (simp add: lookup_markEach)
qed

lemma cleanEdges_mono:
  assumes "childEdges h' = childEdges h" and "dirtySet h \<subseteq> dirtySet h'"
  shows "(cleanEdges h')\<^sup>* \<subseteq> (cleanEdges h)\<^sup>*"
proof (rule rtrancl_mono)
  show "cleanEdges h' \<subseteq> cleanEdges h"
    using assms by (auto simp: cleanEdges_def)
qed

lemma InvalidateChildren_through_clean:
  "x \<in> dirtySet (InvalidateChildren h cs) \<Longrightarrow> x \<notin> dirtySet h
     \<Longrightarrow> \<exists>c \<in> set cs. c \<in> fmdom' h \<and> c \<notin> dirtySet h \<and> (c, x) \<in> (cleanEdges h)\<^sup>*"
proof (induction h cs arbitrary: x rule: InvalidateChildren.induct)
  case (1 h)
  then show ?case by simp
next
  case (2 h c cs)
  note IH = 2(1-4) and xd = 2(5) and xc = 2(6)
  show ?case
  proof (cases "fmlookup h c")
    case None
    then have "x \<in> dirtySet (InvalidateChildren h cs)" using xd by simp
    then show ?thesis using IH(1) [OF None _ xc] by auto
  next
    case (Some child)
    show ?thesis
    proof (cases "m_isDirty child")
      case True
      then have "x \<in> dirtySet (InvalidateChildren h cs)" using xd Some by simp
      then show ?thesis using IH(4) [OF Some _ _ xc] True by auto
    next
      case False
      let ?h1 = "fmupd c (child\<lparr>m_isDirty := True\<rparr>) h"
      let ?h2 = "InvalidateChildren ?h1 (m_children child)"
      let ?h3 = "InvalidateChildren ?h2 cs"
      have e: "InvalidateChildren h (c # cs) = ?h3"
        using Some False by simp
      have h1: "?h1 = markEach {c} h"
        by (rule fmupd_markEach [OF Some])
      have cdom: "c \<in> fmdom' h"
        using Some by (rule fmdom'I)
      have cc: "c \<notin> dirtySet h"
        using Some False by (simp add: dirtySet_def)
      have d1: "dirtySet ?h1 = insert c (dirtySet h)"
        unfolding h1 dirtySet_markEach using cdom by auto
      have E1: "childEdges ?h1 = childEdges h"
        unfolding h1 by (rule childEdges_markEach)
      have dom1: "fmdom' ?h1 = fmdom' h"
        unfolding h1 by (rule fmdom'_markEach)
      have E2: "childEdges ?h2 = childEdges h"
        using InvalidateChildren_childEdges [of ?h1 "m_children child"] E1 by simp
      have dom2: "fmdom' ?h2 = fmdom' h"
        using InvalidateChildren_fmdom' [of ?h1 "m_children child"] dom1 by simp
      have m01: "dirtySet h \<subseteq> dirtySet ?h1" unfolding d1 by blast
      have m12: "dirtySet ?h1 \<subseteq> dirtySet ?h2"
        by (rule InvalidateChildren_dirty_mono)
      have m02: "dirtySet h \<subseteq> dirtySet ?h2" using m01 m12 by blast
      have c1: "(cleanEdges ?h1)\<^sup>* \<subseteq> (cleanEdges h)\<^sup>*"
        using E1 m01 by (rule cleanEdges_mono)
      have c2: "(cleanEdges ?h2)\<^sup>* \<subseteq> (cleanEdges h)\<^sup>*"
        using E2 m02 by (rule cleanEdges_mono)
      have x3: "x \<in> dirtySet ?h3" using xd e by simp
      consider (later) "x \<notin> dirtySet ?h2" | (below) "x \<in> dirtySet ?h2" "x \<notin> dirtySet ?h1"
        | (self) "x = c"
        using xc d1 by blast
      then show ?thesis
      proof cases
        case later
        obtain y where y: "y \<in> set cs" "y \<in> fmdom' ?h2" "y \<notin> dirtySet ?h2"
          "(y, x) \<in> (cleanEdges ?h2)\<^sup>*"
          using IH(3) [OF Some _ x3 later] False by auto
        then have "y \<in> set (c # cs)" "y \<in> fmdom' h" "y \<notin> dirtySet h" "(y, x) \<in> (cleanEdges h)\<^sup>*"
          using dom2 m02 c2 by auto
        then show ?thesis by blast
      next
        case below
        obtain y where y: "y \<in> set (m_children child)" "y \<in> fmdom' ?h1" "y \<notin> dirtySet ?h1"
          "(y, x) \<in> (cleanEdges ?h1)\<^sup>*"
          using IH(2) [OF Some _ below] False by auto
        have yd: "y \<in> fmdom' h" "y \<notin> dirtySet h"
          using y(2,3) dom1 m01 by auto
        have "(c, y) \<in> childEdges h"
          using Some y(1) yd(1) by (auto simp: childEdges_def)
        then have "(c, y) \<in> cleanEdges h"
          using yd(2) by (simp add: cleanEdges_def)
        moreover have "(y, x) \<in> (cleanEdges h)\<^sup>*" using y(4) c1 by blast
        ultimately have "(c, x) \<in> (cleanEdges h)\<^sup>*"
          by (rule converse_rtrancl_into_rtrancl)
        then show ?thesis using cdom cc by auto
      next
        case self
        then show ?thesis using cdom cc by auto
      qed
    qed
  qed
qed

lemma swept_reaches:
  assumes s: "swept h cs h'" and m: "dirtySet h \<subseteq> dirtySet h'"
    and c: "c \<in> set cs" "c \<in> fmdom' h" "c \<notin> dirtySet h" and p: "(c, x) \<in> (cleanEdges h)\<^sup>*"
  shows "x \<in> dirtySet h' \<and> x \<notin> dirtySet h"
  using p
proof (induction rule: rtrancl_induct)
  case base
  then show ?case using s c unfolding swept_def by blast
next
  case (step y z)
  have "(y, z) \<in> childEdges h" "z \<notin> dirtySet h"
    using step(2) by (simp_all add: cleanEdges_def)
  then show ?case using step(3) s unfolding swept_def by blast
qed

lemma InvalidateChildren_exact:
  "dirtySet (InvalidateChildren h cs) =
     dirtySet h \<union> {x. \<exists>c \<in> set cs. c \<in> fmdom' h \<and> c \<notin> dirtySet h \<and> (c, x) \<in> (cleanEdges h)\<^sup>*}"
proof (intro equalityI subsetI)
  fix x assume "x \<in> dirtySet (InvalidateChildren h cs)"
  then show "x \<in> dirtySet h \<union> {x. \<exists>c \<in> set cs. c \<in> fmdom' h \<and> c \<notin> dirtySet h
      \<and> (c, x) \<in> (cleanEdges h)\<^sup>*}"
    using InvalidateChildren_through_clean [of x h cs] by blast
next
  fix x assume "x \<in> dirtySet h \<union> {x. \<exists>c \<in> set cs. c \<in> fmdom' h \<and> c \<notin> dirtySet h
      \<and> (c, x) \<in> (cleanEdges h)\<^sup>*}"
  then show "x \<in> dirtySet (InvalidateChildren h cs)"
    using swept_reaches [OF InvalidateChildren_swept InvalidateChildren_dirty_mono, of _ cs h x]
      InvalidateChildren_dirty_mono [of h cs]
    by blast
qed

lemma cleanDescendants_children:
  assumes "fmlookup h a = Some n"
  shows "cleanDescendants h a =
     {x. \<exists>c \<in> set (m_children n). c \<in> fmdom' h \<and> c \<notin> dirtySet h \<and> (c, x) \<in> (cleanEdges h)\<^sup>*}"
proof -
  have ce: "\<And>x. (a, x) \<in> cleanEdges h \<longleftrightarrow> x \<in> set (m_children n) \<and> x \<in> fmdom' h \<and> x \<notin> dirtySet h"
    using assms by (auto simp: cleanEdges_def childEdges_def)
  show ?thesis
    unfolding cleanDescendants_def trancl_unfold_left using ce by auto
qed

lemma SetBaseValue_exact:
  assumes n: "fmlookup h a = Some n" and v: "m_baseValue n \<noteq> v"
  shows "dirtySet (SetBaseValue a v h) = dirtySet h \<union> cleanDescendants h a"
proof -
  obtain n2 where n2: "m_children n2 = m_children n" "m_isDirty n2 = m_isDirty n"
    and f: "SetBaseValue a v h = InvalidateChildren (fmupd a n2 h) (m_children n)"
    using SetBaseValue_form [OF n v] by metis
  let ?h1 = "fmupd a n2 h"
  have g: "childEdges ?h1 = childEdges h" "dirtySet ?h1 = dirtySet h" "fmdom' ?h1 = fmdom' h"
    using upd_same_graph [OF n n2] by simp_all
  have c: "cleanEdges ?h1 = cleanEdges h"
    by (simp add: cleanEdges_def g)
  show ?thesis
    unfolding f InvalidateChildren_exact g c cleanDescendants_children [OF n] ..
qed

lemma cleanDescendants_subset: "cleanDescendants h a \<subseteq> descendants h a"
proof -
  have "cleanEdges h \<subseteq> childEdges h" by (auto simp: cleanEdges_def)
  then have "(cleanEdges h)\<^sup>+ \<subseteq> (childEdges h)\<^sup>+" by (rule trancl_mono_subset)
  then show ?thesis by (auto simp: cleanDescendants_def descendants_def)
qed


lemma SetBaseValue_clean_inputs:
  assumes n: "fmlookup h a = Some n" and v: "m_baseValue n \<noteq> v"
    and wl: "wellLinked h" and ic: "inputClosed e h"
    and x: "fmlookup h x = Some nx" "m_type nx = Derived" "x \<notin> dirtySet (SetBaseValue a v h)"
    and p: "p \<in> set (inputs e h nx)"
  shows "p \<noteq> a \<and> (p \<in> dirtySet (SetBaseValue a v h)
           \<longrightarrow> (\<exists>np. fmlookup h p = Some np \<and> m_type np \<noteq> Derived))"
proof -
  let ?D = "dirtySet (SetBaseValue a v h)"
  note s = SetBaseValue_swept [OF n v]
  have pp: "p \<in> set (parentsOf nx)" "p \<in> fmdom' h"
    using p inputs_subset [of e h nx] by auto
  then have e: "(p, x) \<in> childEdges h"
    using wl x(1) unfolding wellLinked_def by blast
  have pa: "p \<noteq> a"
    using s(2) [of x] e x(3) by blast
  obtain np where np: "fmlookup h p = Some np"
    using pp(2) by (auto simp: fmlookup_dom'_iff)
  have xc: "\<not> m_isDirty nx"
    using s(1) x(1,3) by (auto simp: dirtySet_def)
  have "m_type np \<noteq> Derived" if d: "p \<in> ?D"
  proof
    assume t: "m_type np = Derived"
    show False
    proof (cases "p \<in> dirtySet h")
      case True
      then have "m_isDirty np" using np by (simp add: dirtySet_def)
      moreover have "\<not> m_isDirty np"
        using ic x(1,2) xc p np t unfolding inputClosed_def by blast
      ultimately show False by simp
    next
      case False
      then show False using s(3) [OF d False e] x(3) by simp
    qed
  qed
  then show ?thesis using pa np by blast
qed

lemma SetBaseValue_ideal:
  assumes n: "fmlookup h a = Some n" and v: "m_baseValue n \<noteq> v"
    and wl: "wellLinked h" and ic: "inputClosed e h"
    and i: "ideal e now h x w" and xa: "x \<noteq> a"
    and xd: "x \<in> dirtySet (SetBaseValue a v h) \<longrightarrow> (\<exists>nx. fmlookup h x = Some nx \<and> m_type nx \<noteq> Derived)"
  shows "ideal e now (SetBaseValue a v h) x w"
proof -
  let ?h' = "SetBaseValue a v h"
  let ?G = "{x. x \<noteq> a \<and> (x \<in> dirtySet ?h' \<longrightarrow> (\<exists>nx. fmlookup h x = Some nx \<and> m_type nx \<noteq> Derived))}"
  note s = SetBaseValue_swept [OF n v]
  show ?thesis
  proof (rule ideal_transfer [where G = ?G and h = h])
    show "ideal e now h x w" by (rule i)
    show "x \<in> ?G" using xa xd by simp
    show "fmdom' ?h' = fmdom' h" by (rule SetBaseValue_fmdom')
  next
    fix y ny assume y: "fmlookup h y = Some ny" "y \<in> ?G"
    then have "fmlookup ?h' y = Some (if y \<in> dirtySet ?h' then ny\<lparr>m_isDirty := True\<rparr> else ny)"
      using s(4) [of y] by simp
    then show "\<exists>n'. fmlookup ?h' y = Some n' \<and> m_type n' = m_type ny \<and> m_baseValue n' = m_baseValue ny
           \<and> contributors e n' = contributors e ny \<and> calcOf now n' = calcOf now ny"
      by (simp add: calcOf_flags contributors_flags)
  next
    fix y ny p assume y: "fmlookup h y = Some ny" "m_type ny = Derived" "y \<in> ?G"
      and p: "p \<in> set (inputs e h ny)"
    have "y \<notin> dirtySet ?h'" using y by auto
    then show "p \<in> ?G"
      using SetBaseValue_clean_inputs [OF n v wl ic y(1,2) _ p] by simp
  qed
qed

lemma SetBaseValue_clean:
  assumes n: "fmlookup h a = Some n" and t: "m_type n \<noteq> Derived" and v: "m_baseValue n \<noteq> v"
    and d: "fmlookup (SetBaseValue a v h) d = Some n'" "m_type n' = Derived" "\<not> m_isDirty n'"
  shows "d \<noteq> a \<and> d \<notin> dirtySet (SetBaseValue a v h) \<and> fmlookup h d = Some n'"
proof -
  let ?h' = "SetBaseValue a v h"
  obtain na where "fmlookup ?h' a = Some na" "m_type na = m_type n"
    using SetBaseValue_self [OF n v] by blast
  then have da: "d \<noteq> a" using d(1,2) t by auto
  have dd: "d \<notin> dirtySet ?h'" using d(1,3) by (simp add: dirtySet_def)
  have "fmlookup ?h' d = map_option (\<lambda>m. m) (fmlookup h d)"
    using SetBaseValue_swept(4) [OF n v da] dd by simp
  then have "fmlookup h d = Some n'" using d(1) by (simp add: option.map_ident)
  with da dd show ?thesis by simp
qed

lemma SetBaseValue_coherent:
  assumes n: "fmlookup h a = Some n" and t: "m_type n \<noteq> Derived" and v: "m_baseValue n \<noteq> v"
    and wl: "wellLinked h" and ic: "inputClosed e h" and co: "coherent e now h"
  shows "coherent e now (SetBaseValue a v h)"
  unfolding coherent_def
proof (intro allI impI, elim conjE)
  let ?h' = "SetBaseValue a v h"
  fix d n' assume d: "fmlookup ?h' d = Some n'" "m_type n' = Derived" "\<not> m_isDirty n'"
  have c: "d \<noteq> a" "d \<notin> dirtySet ?h'" "fmlookup h d = Some n'"
    using SetBaseValue_clean [OF n t v d] by simp_all
  have "ideal e now h d (m_cachedValue n')"
    using co c(3) d(2,3) unfolding coherent_def by blast
  then show "ideal e now ?h' d (m_cachedValue n')"
    using c(1,2) by (intro SetBaseValue_ideal [OF n v wl ic]) simp_all
qed

lemma SetBaseValue_inputClosed:
  assumes n: "fmlookup h a = Some n" and t: "m_type n \<noteq> Derived" and v: "m_baseValue n \<noteq> v"
    and wl: "wellLinked h" and ic: "inputClosed e h"
  shows "inputClosed e (SetBaseValue a v h)"
  unfolding inputClosed_def
proof (intro allI impI, elim conjE)
  let ?h' = "SetBaseValue a v h"
  fix x nx p np
  assume x: "fmlookup ?h' x = Some nx" "m_type nx = Derived" "\<not> m_isDirty nx"
    and p: "p \<in> set (inputs e ?h' nx)" "fmlookup ?h' p = Some np" "m_type np = Derived"
  have c: "x \<noteq> a" "x \<notin> dirtySet ?h'" "fmlookup h x = Some nx"
    using SetBaseValue_clean [OF n t v x] by simp_all
  have "inputs e ?h' nx = inputs e h nx"
    by (simp add: inputs_def SetBaseValue_fmdom')
  then have pi: "p \<in> set (inputs e h nx)" using p(1) by simp
  have q: "p \<noteq> a" "p \<in> dirtySet ?h' \<longrightarrow> (\<exists>m. fmlookup h p = Some m \<and> m_type m \<noteq> Derived)"
    using SetBaseValue_clean_inputs [OF n v wl ic c(3) x(2) c(2) pi] by simp_all
  show "\<not> m_isDirty np"
  proof
    assume "m_isDirty np"
    then have "p \<in> dirtySet ?h'" using p(2) by (simp add: dirtySet_def)
    then obtain m where m: "fmlookup h p = Some m" "m_type m \<noteq> Derived"
      using q(2) by blast
    have "fmlookup ?h' p = Some (if p \<in> dirtySet ?h' then m\<lparr>m_isDirty := True\<rparr> else m)"
      using SetBaseValue_swept(4) [OF n v q(1)] m(1) by simp
    then have "m_type np = m_type m" using p(2) by auto
    then show False using p(3) m(2) by simp
  qed
qed

lemma SetBaseValue_wellLinked:
  assumes "wellLinked h"
  shows "wellLinked (SetBaseValue a v h)"
  unfolding wellLinked_def SetBaseValue_childEdges SetBaseValue_fmdom'
proof (intro allI impI ballI)
  fix x n' p
  assume "fmlookup (SetBaseValue a v h) x = Some n'" and p: "p \<in> set (parentsOf n')" "p \<in> fmdom' h"
  then obtain nx where "fmlookup h x = Some nx" "parentsOf n' = parentsOf nx"
    using SetBaseValue_parentsOf by blast
  then show "(p, x) \<in> childEdges h"
    using assms p unfolding wellLinked_def by auto
qed

lemma downClosed_inputClosed:
  assumes dc: "downClosed h" and wl: "wellLinked h"
  shows "inputClosed e h"
  unfolding inputClosed_def
proof (intro allI impI, elim conjE)
  fix x n p np
  assume x: "fmlookup h x = Some n" "\<not> m_isDirty n"
    and p: "p \<in> set (inputs e h n)" "fmlookup h p = Some np"
  have "p \<in> set (parentsOf n)" "p \<in> fmdom' h"
    using p(1) inputs_subset [of e h n] by auto
  then have e: "(p, x) \<in> childEdges h"
    using wl x(1) unfolding wellLinked_def by blast
  show "\<not> m_isDirty np"
  proof
    assume "m_isDirty np"
    then have "p \<in> dirtySet h" using p(2) by (simp add: dirtySet_def)
    then have "x \<in> dirtySet h" using dc e unfolding downClosed_def by blast
    then show False using x by (simp add: dirtySet_def)
  qed
qed

text \<open>
  Claim C4, as amended. \<^verbatim>\<open>SetBaseValue\<close> with the value already stored leaves the heap as it
  is. With another value \<open>v\<close> on a Base or History node \<open>a\<close>:
  every node other than \<open>a\<close> with no path of child edges from \<open>a\<close> keeps its whole state;
  a pull of \<open>a\<close> returns \<open>v\<close>;
  the nodes that are dirty afterwards are the ones that were dirty and the descendants of
  \<open>a\<close> that a path of child edges reaches through clean nodes only;
  when the children of every dirty node are dirty, every transitive descendant of \<open>a\<close> is
  dirty afterwards, and the children of every dirty node are dirty again;
  when the child lists mirror the parent lists, no clean Derived node has a dirty Derived
  input and every clean Derived node caches the value of a full recomputation, the same
  three conditions hold afterwards, and in every sequence of pulls that follows, with the
  state of the predicates and the clock unchanged, every pull returns the value of a full
  recomputation from the new base value, and the three conditions hold again at the end;
  and on a graph without cycle every such sequence of pulls returns.
\<close>

theorem C4_SetBaseValue:
  assumes "fmlookup h a = Some n" and "m_type n \<noteq> Derived"
  shows "SetBaseValue a (m_baseValue n) h = h
    \<and> (v \<noteq> m_baseValue n \<longrightarrow>
         (\<forall>b. b \<noteq> a \<and> b \<notin> descendants h a \<longrightarrow> fmlookup (SetBaseValue a v h) b = fmlookup h b)
       \<and> (\<forall>k. map_option fst (GetValue (Suc k) e now (SetBaseValue a v h) a) = Some v)
       \<and> dirtySet (SetBaseValue a v h) = dirtySet h \<union> cleanDescendants h a
       \<and> (downClosed h \<longrightarrow>
            descendants h a \<subseteq> dirtySet (SetBaseValue a v h) \<and> downClosed (SetBaseValue a v h))
       \<and> (wellLinked h \<and> inputClosed e h \<and> coherent e now h \<longrightarrow>
            wellLinked (SetBaseValue a v h) \<and> inputClosed e (SetBaseValue a v h)
            \<and> coherent e now (SetBaseValue a v h)
            \<and> (\<forall>ps ws h2. pullSequence e now (SetBaseValue a v h) ps = Some (ws, h2)
                  \<longrightarrow> list_all2 (ideal e now (SetBaseValue a v h)) (map snd ps) ws
                      \<and> wellLinked h2 \<and> inputClosed e h2 \<and> coherent e now h2))
       \<and> (ranked r h \<longrightarrow>
            (\<forall>ds. set ds \<subseteq> fmdom' h \<longrightarrow>
               (\<exists>ws h2. pullSequence e now (SetBaseValue a v h) (map (\<lambda>d. (Suc (r d), d)) ds)
                          = Some (ws, h2)))))"
proof (intro conjI impI allI)
  show "SetBaseValue a (m_baseValue n) h = h"
    by (rule SetBaseValue_same [OF assms(1)])
next
  fix b assume "b \<noteq> a \<and> b \<notin> descendants h a"
  then show "fmlookup (SetBaseValue a v h) b = fmlookup h b"
    using SetBaseValue_frame [OF assms(1)] by blast
next
  fix k assume v: "v \<noteq> m_baseValue n"
  then obtain n' where n': "fmlookup (SetBaseValue a v h) a = Some n'" "m_baseValue n' = v"
    "m_type n' = m_type n"
    using SetBaseValue_self [OF assms(1), of v] by auto
  then have "m_type n' \<noteq> Derived" using assms(2) by simp
  from GetValue_source [OF n'(1) this, of k e now] n'(2)
  show "map_option fst (GetValue (Suc k) e now (SetBaseValue a v h) a) = Some v"
    by simp
next
  assume "v \<noteq> m_baseValue n"
  then show "dirtySet (SetBaseValue a v h) = dirtySet h \<union> cleanDescendants h a"
    using SetBaseValue_exact [OF assms(1), of v] by simp
next
  assume v: "v \<noteq> m_baseValue n" and dc: "downClosed h"
  show "descendants h a \<subseteq> dirtySet (SetBaseValue a v h)"
    using SetBaseValue_dirtySet [OF assms(1) _ dc, of v] v by auto
  show "downClosed (SetBaseValue a v h)"
    using SetBaseValue_dirtySet [OF assms(1) _ dc, of v] v by auto
next
  assume v: "v \<noteq> m_baseValue n" and i: "wellLinked h \<and> inputClosed e h \<and> coherent e now h"
  have v': "m_baseValue n \<noteq> v" using v by simp
  show w: "wellLinked (SetBaseValue a v h)"
    using i by (intro SetBaseValue_wellLinked) simp
  show ic: "inputClosed e (SetBaseValue a v h)"
    using i by (intro SetBaseValue_inputClosed [OF assms v']) simp_all
  show c: "coherent e now (SetBaseValue a v h)"
    using i by (intro SetBaseValue_coherent [OF assms v']) simp_all
  fix ps ws h2 assume s: "pullSequence e now (SetBaseValue a v h) ps = Some (ws, h2)"
  show "list_all2 (ideal e now (SetBaseValue a v h)) (map snd ps) ws"
    using pullSequence_ideal [OF c s] by simp
  show "coherent e now h2"
    using pullSequence_ideal [OF c s] by simp
  show "wellLinked h2" "inputClosed e h2"
    using pullSequence_invariant [OF w ic s] by simp_all
next
  fix ds assume "ranked r h" and "set ds \<subseteq> fmdom' h"
  then have "ranked r (SetBaseValue a v h)" "set ds \<subseteq> fmdom' (SetBaseValue a v h)"
    by (simp_all add: ranked_SetBaseValue SetBaseValue_fmdom')
  then show "\<exists>ws h2. pullSequence e now (SetBaseValue a v h) (map (\<lambda>d. (Suc (r d), d)) ds)
                          = Some (ws, h2)"
    by (rule pullSequence_returns)
qed


lemma exPulled_nodes:
  "fmlookup exPulled 0 = Some ((new_StatNode ''base'' ''Base'' 100 Base)\<lparr>m_children := [2]\<rparr>)"
  "fmlookup exPulled (Suc 0) = Some ((new_StatNode ''bonus'' ''Bonus'' 50 Base)\<lparr>m_children := [2]\<rparr>)"
  "fmlookup exPulled 2 = Some ((new_StatNode ''derived'' ''Derived'' 0 Derived)
     \<lparr>m_parents := [0], m_cachedValue := 100, m_isDirty := False,
      m_conditionalParents := [\<lparr> cp_node = 1, cp_condition = Some (\<lambda>conditionMet. conditionMet),
                                  conditionDesc = ''Test Condition'', lastActive = True \<rparr>]\<rparr>)"
  by (simp_all add: exPulled_def ex_eval)

lemma exPulled_dom: "fmdom' exPulled = {0, 1, 2}"
  by (auto simp: exPulled_def ex_eval)

lemma exPulled_cases:
  assumes "fmlookup exPulled x = Some n"
  obtains "x = 0" "n = (new_StatNode ''base'' ''Base'' 100 Base)\<lparr>m_children := [2]\<rparr>"
  | "x = Suc 0" "n = (new_StatNode ''bonus'' ''Bonus'' 50 Base)\<lparr>m_children := [2]\<rparr>"
  | "x = 2" "n = (new_StatNode ''derived'' ''Derived'' 0 Derived)
     \<lparr>m_parents := [0], m_cachedValue := 100, m_isDirty := False,
      m_conditionalParents := [\<lparr> cp_node = 1, cp_condition = Some (\<lambda>conditionMet. conditionMet),
                                  conditionDesc = ''Test Condition'', lastActive = True \<rparr>]\<rparr>"
proof -
  have "x \<in> fmdom' exPulled" using assms by (rule fmdom'I)
  then have "x = 0 \<or> x = Suc 0 \<or> x = 2" unfolding exPulled_dom by simp
  then show ?thesis
    using assms that exPulled_nodes by (elim disjE) simp_all
qed

lemma exPulled_dirtySet: "dirtySet exPulled = {}"
proof -
  have "\<not> m_isDirty n" if "fmlookup exPulled x = Some n" for x n
    using that by (rule exPulled_cases) (simp_all add: new_StatNode_def)
  then show ?thesis unfolding dirtySet_def by blast
qed

lemma exPulled_downClosed: "downClosed exPulled"
  unfolding downClosed_def exPulled_dirtySet by simp

lemma exPulled_edges: "(0, 2) \<in> childEdges exPulled" "(Suc 0, 2) \<in> childEdges exPulled"
  by (simp_all add: childEdges_def exPulled_nodes new_StatNode_def exPulled_dom)

lemma exPulled_wellLinked: "wellLinked exPulled"
  unfolding wellLinked_def
proof (intro allI impI ballI)
  fix x n p assume l: "fmlookup exPulled x = Some n" and p: "p \<in> set (parentsOf n)"
  from l show "(p, x) \<in> childEdges exPulled"
  proof (rule exPulled_cases)
    assume "x = 0" "n = (new_StatNode ''base'' ''Base'' 100 Base)\<lparr>m_children := [2]\<rparr>"
    then show ?thesis using p by (simp add: parentsOf_def new_StatNode_def)
  next
    assume "x = Suc 0" "n = (new_StatNode ''bonus'' ''Bonus'' 50 Base)\<lparr>m_children := [2]\<rparr>"
    then show ?thesis using p by (simp add: parentsOf_def new_StatNode_def)
  next
    assume "x = 2" "n = (new_StatNode ''derived'' ''Derived'' 0 Derived)
     \<lparr>m_parents := [0], m_cachedValue := 100, m_isDirty := False,
      m_conditionalParents := [\<lparr> cp_node = 1, cp_condition = Some (\<lambda>conditionMet. conditionMet),
                                  conditionDesc = ''Test Condition'', lastActive = True \<rparr>]\<rparr>"
    then show ?thesis using p exPulled_edges by (auto simp: parentsOf_def new_StatNode_def)
  qed
qed

lemma exPulled_coherent: "coherent False 0 exPulled"
  unfolding coherent_def
proof (intro allI impI, elim conjE)
  fix a n assume a: "fmlookup exPulled a = Some n" "m_type n = Derived" "\<not> m_isDirty n"
  from a(1) have a2: "a = 2"
    by (rule exPulled_cases) (use a(2) in \<open>simp_all add: new_StatNode_def\<close>)
  let ?n0 = "(new_StatNode ''base'' ''Base'' 100 Base)\<lparr>m_children := [2]\<rparr> :: bool StatNode"
  have "ideal False 0 exPulled 0 (m_baseValue ?n0)"
    by (rule ideal.source) (simp_all add: exPulled_nodes new_StatNode_def)
  then have i0: "ideal False 0 exPulled 0 100"
    by (simp add: new_StatNode_def)
  have inp: "inputs False exPulled n = [0]"
    using a(1) unfolding a2
    by (auto simp: exPulled_nodes inputs_def contributors_def predicateTrue_def exPulled_dom
        new_StatNode_def)
  have "ideal False 0 exPulled a (calcOf 0 n [100])"
    using a(1,2) by (rule ideal.derived) (simp add: inp i0)
  moreover have "calcOf 0 n [100] = m_cachedValue n"
    using a(1) unfolding a2 by (auto simp: exPulled_nodes calcOf_def new_StatNode_def)
  ultimately show "ideal False 0 exPulled a (m_cachedValue n)" by simp
qed

lemma exStale_dom: "fmdom' exStale = {0, 1, 2}"
  by (auto simp: ex_eval)

lemma exStale_cases:
  assumes "fmlookup exStale x = Some n"
  obtains "x = 0" "n = (new_StatNode ''A'' ''A'' 10 Base)\<lparr>m_children := [1]\<rparr>"
  | "x = Suc 0" "n = (new_StatNode ''B'' ''B'' 0 Derived)\<lparr>m_parents := [0], m_children := [2]\<rparr>"
  | "x = 2" "n = (new_StatNode ''D'' ''D'' 0 Derived)
     \<lparr>m_isDirty := False,
      m_conditionalParents := [\<lparr> cp_node = 1, cp_condition = Some (\<lambda>conditionMet. conditionMet),
                                  conditionDesc = ''Test Condition'', lastActive = True \<rparr>]\<rparr>"
proof -
  have "x \<in> fmdom' exStale" using assms by (rule fmdom'I)
  then have "x = 0 \<or> x = Suc 0 \<or> x = 2" unfolding exStale_dom by simp
  then show ?thesis
    using assms that exStale_nodes by (elim disjE) simp_all
qed

lemma exStale_edges: "(0, Suc 0) \<in> childEdges exStale" "(Suc 0, 2) \<in> childEdges exStale"
  by (simp_all add: childEdges_def exStale_nodes new_StatNode_def exStale_dom)

lemma exStale_wellLinked: "wellLinked exStale"
  unfolding wellLinked_def
proof (intro allI impI ballI)
  fix x n p assume l: "fmlookup exStale x = Some n" and p: "p \<in> set (parentsOf n)"
  from l show "(p, x) \<in> childEdges exStale"
  proof (rule exStale_cases)
    assume "x = 0" "n = (new_StatNode ''A'' ''A'' 10 Base)\<lparr>m_children := [1]\<rparr>"
    then show ?thesis using p by (simp add: parentsOf_def new_StatNode_def)
  next
    assume "x = Suc 0" "n = (new_StatNode ''B'' ''B'' 0 Derived)\<lparr>m_parents := [0], m_children := [2]\<rparr>"
    then show ?thesis using p exStale_edges by (auto simp: parentsOf_def new_StatNode_def)
  next
    assume "x = 2" "n = (new_StatNode ''D'' ''D'' 0 Derived)
     \<lparr>m_isDirty := False,
      m_conditionalParents := [\<lparr> cp_node = 1, cp_condition = Some (\<lambda>conditionMet. conditionMet),
                                  conditionDesc = ''Test Condition'', lastActive = True \<rparr>]\<rparr>"
    then show ?thesis using p exStale_edges by (auto simp: parentsOf_def new_StatNode_def)
  qed
qed

lemma exStale_clean:
  assumes "fmlookup exStale x = Some n" and "m_type n = Derived" and "\<not> m_isDirty n"
  shows "x = 2 \<and> inputs False exStale n = [] \<and> calcOf 0 n [] = m_cachedValue n"
proof -
  from assms(1) have x: "x = 2"
    by (rule exStale_cases) (use assms(2,3) in \<open>simp_all add: new_StatNode_def\<close>)
  then show ?thesis
    using assms(1)
    by (auto simp: exStale_nodes inputs_def contributors_def predicateTrue_def calcOf_def
        new_StatNode_def)
qed

lemma exStale_inputClosed: "inputClosed False exStale"
  unfolding inputClosed_def
proof (intro allI impI, elim conjE)
  fix x n p np
  assume "fmlookup exStale x = Some n" "m_type n = Derived" "\<not> m_isDirty n"
    and "p \<in> set (inputs False exStale n)"
  then show "\<not> m_isDirty np"
    using exStale_clean [of x n] by simp
qed

lemma exStale_coherent: "coherent False 0 exStale"
  unfolding coherent_def
proof (intro allI impI, elim conjE)
  fix a n assume a: "fmlookup exStale a = Some n" "m_type n = Derived" "\<not> m_isDirty n"
  note c = exStale_clean [OF a]
  have "ideal False 0 exStale a (calcOf 0 n [])"
    using a(1,2) by (rule ideal.derived) (simp add: c)
  then show "ideal False 0 exStale a (m_cachedValue n)"
    using c by simp
qed

lemma exStale_SetBaseValue_pulls:
  "map_option fst (pullSequence False 0 (SetBaseValue 0 20 exStale) [(2, 2), (2, Suc 0)])
     = Some [0, 20]"
proof -
  have "SetBaseValue 0 20 exStale
      = fmupd 0 ((new_StatNode ''A'' ''A'' 10 Base)\<lparr>m_children := [1], m_baseValue := 20, m_cachedValue := 20\<rparr>) exStale"
    by (simp add: SetBaseValue_def exStale_nodes new_StatNode_def Let_def)
  moreover have "fmlookup exStale (Suc (Suc 0)) = Some ((new_StatNode ''D'' ''D'' 0 Derived)
     \<lparr>m_isDirty := False,
      m_conditionalParents := [\<lparr> cp_node = 1, cp_condition = Some (\<lambda>conditionMet. conditionMet),
                                  conditionDesc = ''Test Condition'', lastActive = True \<rparr>]\<rparr>)"
    using exStale_nodes(3) by (simp add: numeral_2_eq_2)
  ultimately show ?thesis
    by (simp add: exStale_nodes new_StatNode_def GetValue.simps numeral_2_eq_2 modify_def)
qed

lemma exPulled_SetBaseValue_pulls:
  "map_option fst (pullSequence False 0 (SetBaseValue 0 20 exPulled) [(2, 2), (2, 2)])
     = Some [20, 20]"
proof -
  have "SetBaseValue 0 20 exPulled =
     fmupd 2 ((new_StatNode ''derived'' ''Derived'' 0 Derived)
       \<lparr>m_parents := [0], m_cachedValue := 100, m_isDirty := True,
        m_conditionalParents := [\<lparr> cp_node = 1, cp_condition = Some (\<lambda>conditionMet. conditionMet),
                                  conditionDesc = ''Test Condition'', lastActive = True \<rparr>]\<rparr>)
      (fmupd 0 ((new_StatNode ''base'' ''Base'' 100 Base)
         \<lparr>m_children := [2], m_baseValue := 20, m_cachedValue := 20\<rparr>) exPulled)"
    by (simp add: SetBaseValue_def exPulled_nodes new_StatNode_def Let_def)
  then show ?thesis
    by (simp add: exPulled_nodes new_StatNode_def GetValue.simps numeral_2_eq_2 modify_def)
qed

lemma exPulled_ranked: "ranked (\<lambda>a. a) exPulled"
  unfolding ranked_def
proof (intro allI impI)
  fix a n assume "fmlookup exPulled a = Some n"
  then show "\<forall>p \<in> set (parentsOf n). p < a"
    by (rule exPulled_cases) (simp_all add: parentsOf_def new_StatNode_def)
qed

theorem C4_SetBaseValue_witness:
  "downClosed exPulled \<and> wellLinked exPulled \<and> inputClosed False exPulled
   \<and> coherent False 0 exPulled \<and> ranked (\<lambda>a. a) exPulled
   \<and> 2 \<in> dirtySet (SetBaseValue 0 20 exPulled)
   \<and> map_option fst (pullSequence False 0 (SetBaseValue 0 20 exPulled) [(2, 2), (2, 2)])
       = Some [20, 20]
   \<and> list_all2 (ideal False 0 (SetBaseValue 0 20 exPulled)) [2, 2] [20, 20]
   \<and> (\<exists>ws h2. pullSequence False 0 (SetBaseValue 0 20 exPulled) [(3, 2), (1, 0)] = Some (ws, h2))
   \<and> wellLinked exStale \<and> inputClosed False exStale \<and> coherent False 0 exStale
   \<and> map_option fst (pullSequence False 0 (SetBaseValue 0 20 exStale) [(2, 2), (2, 1)])
       = Some [0, 20]
   \<and> list_all2 (ideal False 0 (SetBaseValue 0 20 exStale)) [2, 1] [0, 20]
   \<and> dirtySet (SetBaseValue 0 20 exStale) = dirtySet exStale"
proof -
  let ?n0 = "(new_StatNode ''base'' ''Base'' 100 Base)\<lparr>m_children := [2]\<rparr> :: bool StatNode"
  let ?a0 = "(new_StatNode ''A'' ''A'' 10 Base)\<lparr>m_children := [1]\<rparr> :: bool StatNode"
  have n: "fmlookup exPulled 0 = Some ?n0" "m_type ?n0 \<noteq> Derived" "20 \<noteq> m_baseValue ?n0"
    by (simp_all add: exPulled_nodes new_StatNode_def)
  have m: "fmlookup exStale 0 = Some ?a0" "m_type ?a0 \<noteq> Derived" "20 \<noteq> m_baseValue ?a0"
    by (simp_all add: exStale_nodes new_StatNode_def)
  have d: "2 \<in> descendants exPulled 0"
    using exPulled_edges(1) by (auto simp: descendants_def)
  have ic: "inputClosed False exPulled"
    using exPulled_downClosed exPulled_wellLinked by (rule downClosed_inputClosed)
  obtain h2 where g: "pullSequence False 0 (SetBaseValue 0 20 exPulled) [(2, 2), (2, 2)]
      = Some ([20, 20], h2)"
    using exPulled_SetBaseValue_pulls
    by (cases "pullSequence False 0 (SetBaseValue 0 20 exPulled) [(2, 2), (2, 2)]") auto
  obtain h3 where g': "pullSequence False 0 (SetBaseValue 0 20 exStale) [(2, 2), (2, Suc 0)]
      = Some ([0, 20], h3)"
    using exStale_SetBaseValue_pulls
    by (cases "pullSequence False 0 (SetBaseValue 0 20 exStale) [(2, 2), (2, Suc 0)]") auto
  note t = C4_SetBaseValue [OF n(1,2), of 20 False 0 "\<lambda>a. a", THEN conjunct2, THEN mp, OF n(3)]
  note t3 = t [THEN conjunct2, THEN conjunct2, THEN conjunct2, THEN conjunct1, THEN mp,
      OF exPulled_downClosed]
  note t4 = t [THEN conjunct2, THEN conjunct2, THEN conjunct2, THEN conjunct2, THEN conjunct1,
      THEN mp, OF conjI [OF exPulled_wellLinked conjI [OF ic exPulled_coherent]]]
  note t5 = t [THEN conjunct2, THEN conjunct2, THEN conjunct2, THEN conjunct2, THEN conjunct2,
      THEN mp, OF exPulled_ranked]
  note u = C4_SetBaseValue [OF m(1,2), of 20 False 0 "\<lambda>a. a", THEN conjunct2, THEN mp, OF m(3)]
  note u2 = u [THEN conjunct2, THEN conjunct2, THEN conjunct1]
  note u4 = u [THEN conjunct2, THEN conjunct2, THEN conjunct2, THEN conjunct2, THEN conjunct1,
      THEN mp, OF conjI [OF exStale_wellLinked conjI [OF exStale_inputClosed exStale_coherent]]]
  have "cleanDescendants exStale 0 = {}"
    unfolding cleanDescendants_children [OF m(1)] using exStale_facts(1)
    by (simp add: new_StatNode_def)
  then have 6: "dirtySet (SetBaseValue 0 20 exStale) = dirtySet exStale"
    using u2 by simp
  have 1: "2 \<in> dirtySet (SetBaseValue 0 20 exPulled)"
    using t3 d by blast
  have 2: "list_all2 (ideal False 0 (SetBaseValue 0 20 exPulled)) [2, 2] [20, 20]"
    using t4 [THEN conjunct2, THEN conjunct2, THEN conjunct2, THEN spec, THEN spec, THEN spec,
        THEN mp, OF g] by simp
  have "set [2, 0] \<subseteq> fmdom' exPulled" by (simp add: exPulled_dom)
  then have 3: "\<exists>ws h2. pullSequence False 0 (SetBaseValue 0 20 exPulled) [(3, 2), (1, 0)] = Some (ws, h2)"
    using t5 [THEN spec, of "[2, 0]"] by (simp add: numeral_3_eq_3)
  have 4: "list_all2 (ideal False 0 (SetBaseValue 0 20 exStale)) [2, 1] [0, 20]"
    using u4 [THEN conjunct2, THEN conjunct2, THEN conjunct2, THEN spec, THEN spec, THEN spec,
        THEN mp, OF g'] by simp
  have 5: "map_option fst (pullSequence False 0 (SetBaseValue 0 20 exStale) [(2, 2), (2, 1)])
       = Some [0, 20]"
    using exStale_SetBaseValue_pulls by simp
  show ?thesis
    using 1 2 3 4 5 6 ic exPulled_SetBaseValue_pulls exPulled_downClosed exPulled_wellLinked
      exPulled_coherent exPulled_ranked exStale_wellLinked exStale_inputClosed exStale_coherent
    by (intro conjI)
qed


text \<open>
  The claim as stated fails on \<open>exStale\<close>: \<open>D\<close> is a Derived node reachable from the Base
  node \<open>A\<close> through the child edges over \<open>B\<close>; \<open>B\<close> is dirty already, so \<^verbatim>\<open>SetBaseValue\<close> on
  \<open>A\<close> stops there and \<open>D\<close> is not marked dirty.
\<close>

theorem C4_SetBaseValue_counterexample:
  "2 \<in> descendants exStale 0 \<and> map_option m_type (fmlookup exStale 2) = Some Derived
   \<and> map_option m_type (fmlookup exStale 0) = Some Base
   \<and> map_option m_baseValue (fmlookup exStale 0) = Some 10
   \<and> 2 \<notin> dirtySet (SetBaseValue 0 20 exStale)"
  by (rule exStale_SetBaseValue)

end
